theory Spec2Isabelle
  imports Main "HOL-Library.Word"
begin

section \<open>Shard-range flag: the standard-library functions it calls\<close>

text \<open>
  \<^verbatim>\<open>cmd/rekor-server/app/flags.go\<close> parses a textual shard-range description with
  \<^verbatim>\<open>strings.Split\<close>, \<^verbatim>\<open>strings.SplitN\<close> and \<^verbatim>\<open>strconv.ParseUint\<close>, and renders it
  with \<^verbatim>\<open>fmt.Sprintf\<close> and \<^verbatim>\<open>strings.Join\<close>. These belong to the Go standard library;
  they are embedded here as far as the flag uses them: separators of one byte, base 10,
  64 bits.
\<close>

subsection \<open>strings.Index, strings.Count, strings.Split, strings.SplitN, strings.Join\<close>

text \<open>\<^verbatim>\<open>strings.Index(s, sep)\<close> for a separator of one byte; Go's \<^verbatim>\<open>-1\<close> is \<open>None\<close>.\<close>

fun Index :: "string \<Rightarrow> char \<Rightarrow> nat option" where
  "Index [] sep = None"
| "Index (c # cs) sep = (if c = sep then Some 0 else map_option Suc (Index cs sep))"

definition Count :: "string \<Rightarrow> char \<Rightarrow> nat" where
  "Count s sep = length (filter (\<lambda>c. c = sep) s)"

text \<open>
  The loop of \<^verbatim>\<open>strings.genSplit\<close>: \<^verbatim>\<open>for i < n { m := Index(s, sep); if m < 0 { break };
  a[i] = s[:m]; s = s[m+len(sep):]; i++ }; a[i] = s\<close>. The first argument counts the
  iterations that are left, \<^verbatim>\<open>n - i\<close>.
\<close>

fun genSplit_loop :: "nat \<Rightarrow> string \<Rightarrow> char \<Rightarrow> string list" where
  "genSplit_loop 0 s sep = [s]"
| "genSplit_loop (Suc k) s sep =
     (case Index s sep of
        None \<Rightarrow> [s]
      | Some m \<Rightarrow> take m s # genSplit_loop k (drop (m + 1) s) sep)"

text \<open>
  \<^verbatim>\<open>genSplit(s, sep, 0, n)\<close>: no substring for \<^verbatim>\<open>n == 0\<close>, all of them for \<^verbatim>\<open>n < 0\<close>, at most
  \<^verbatim>\<open>n\<close> otherwise, and never more than \<^verbatim>\<open>len(s) + 1\<close>.
\<close>

definition genSplit :: "string \<Rightarrow> char \<Rightarrow> int \<Rightarrow> string list" where
  "genSplit s sep n =
     (if n = 0 then []
      else (let n1 = (if n < 0 then Count s sep + 1 else nat n);
                n2 = (if length s + 1 < n1 then length s + 1 else n1)
            in genSplit_loop (n2 - 1) s sep))"

definition Split :: "string \<Rightarrow> char \<Rightarrow> string list" where
  "Split s sep = genSplit s sep (- 1)"

definition SplitN :: "string \<Rightarrow> char \<Rightarrow> int \<Rightarrow> string list" where
  "SplitN s sep n = genSplit s sep n"

fun Join :: "string list \<Rightarrow> string \<Rightarrow> string" where
  "Join [] sep = []"
| "Join [a] sep = a"
| "Join (a # b # elems) sep = a @ sep @ Join (b # elems) sep"

subsection \<open>strconv.ParseUint(s, 10, 64)\<close>

datatype num_err = ErrSyntax | ErrRange

definition maxUint64 :: "64 word" where
  "maxUint64 = - 1"

text \<open>\<^verbatim>\<open>cutoff = maxUint64/10 + 1\<close>: the smallest number whose tenfold exceeds 64 bits.\<close>

definition cutoff :: "64 word" where
  "cutoff = maxUint64 div 10 + 1"

text \<open>\<^verbatim>\<open>lower(c) = c | ('x' - 'X')\<close>, on the byte's number.\<close>

definition lower :: "nat \<Rightarrow> nat" where
  "lower c = or c 32"

text \<open>
  The digit of a byte in \<^verbatim>\<open>ParseUint\<close>'s \<^verbatim>\<open>switch\<close>: \<^verbatim>\<open>c - '0'\<close> for a decimal digit,
  \<^verbatim>\<open>lower(c) - 'a' + 10\<close> for a letter, a syntax error (\<open>None\<close>) for anything else.
\<close>

definition digit_val :: "char \<Rightarrow> nat option" where
  "digit_val c =
     (let b = (of_char c :: nat) in
      if 48 \<le> b \<and> b \<le> 57 then Some (b - 48)
      else if 97 \<le> lower b \<and> lower b \<le> 122 then Some (lower b - 97 + 10)
      else None)"

text \<open>
  The loop over the bytes of the string, with the accumulator \<^verbatim>\<open>n\<close> a \<^verbatim>\<open>uint64\<close>: a digit
  not below the base is a syntax error, \<^verbatim>\<open>n >= cutoff\<close> and a wrapped or too large
  \<^verbatim>\<open>n*10 + d\<close> are range errors. With the base 10 given, an underscore is no separator
  and no prefix is read. The number returned beside an error is not used by the flag and
  is left out.
\<close>

fun parse_digits :: "64 word \<Rightarrow> string \<Rightarrow> num_err + 64 word" where
  "parse_digits n [] = Inr n"
| "parse_digits n (c # cs) =
     (case digit_val c of
        None \<Rightarrow> Inl ErrSyntax
      | Some d \<Rightarrow>
          if 10 \<le> d then Inl ErrSyntax
          else if cutoff \<le> n then Inl ErrRange
          else (let n10 = n * 10; n1 = n10 + of_nat d in
                if n1 < n10 \<or> maxUint64 < n1 then Inl ErrRange
                else parse_digits n1 cs))"

definition ParseUint :: "string \<Rightarrow> num_err + 64 word" where
  "ParseUint s = (if s = [] then Inl ErrSyntax else parse_digits 0 s)"

subsection \<open>fmt.Sprintf("%d", n) for an unsigned number\<close>

fun digits_of :: "nat \<Rightarrow> string" where
  "digits_of n =
     (if n < 10 then [char_of (48 + n)]
      else digits_of (n div 10) @ [char_of (48 + n mod 10)])"

definition Sprintf_d :: "64 word \<Rightarrow> string" where
  "Sprintf_d n = digits_of (unat n)"

section \<open>LogRangesFlag\<close>

text \<open>
  Modelled from the spec: the declarations of \<^verbatim>\<open>api.LogRange\<close> and \<^verbatim>\<open>api.LogRanges\<close>
  (package \<^verbatim>\<open>pkg/api\<close>) are not among the sources. Their fields are the ones
  \<^verbatim>\<open>flags.go\<close> reads and writes: \<^verbatim>\<open>TreeID\<close> and \<^verbatim>\<open>TreeLength\<close>, both assigned from
  \<^verbatim>\<open>strconv.ParseUint(_, 10, 64)\<close> and so \<^verbatim>\<open>uint64\<close>, and the slice \<^verbatim>\<open>Ranges\<close>. The spec's
  Shard has a tree identifier and a length of 64 bits each; whether a shard is active is
  its position (the last one), not a field.
\<close>

record LogRange =
  TreeID :: "64 word"
  TreeLength :: "64 word"

record LogRanges =
  LogRanges_Ranges :: "LogRange list"

record LogRangesFlag =
  Ranges :: LogRanges

text \<open>
  The errors \<^verbatim>\<open>Set\<close> returns: the two \<^verbatim>\<open>fmt.Errorf\<close> values and the \<^verbatim>\<open>*strconv.NumError\<close>
  of \<^verbatim>\<open>ParseUint\<close> (the string it was given and the kind of failure). The last
  constructor is not a returned error but the run-time panic of slicing
  \<^verbatim>\<open>ranges[:len(ranges)-1]\<close> when \<^verbatim>\<open>ranges\<close> is empty.
\<close>

datatype error =
    Errorf_invalid_range_flag string
  | NumError string num_err
  | Errorf_duplicate_tree_id "64 word"
  | Panic_slice_bounds

definition ParseUint_err :: "string \<Rightarrow> error + 64 word" where
  "ParseUint_err s = (case ParseUint s of Inl e \<Rightarrow> Inl (NumError s e) | Inr n \<Rightarrow> Inr n)"

text \<open>The loop over \<^verbatim>\<open>ranges[:len(ranges)-1]\<close>, appending to \<^verbatim>\<open>inputRanges\<close>.\<close>

fun parse_historical :: "string list \<Rightarrow> LogRange list \<Rightarrow> error + LogRange list" where
  "parse_historical [] inputRanges = Inr inputRanges"
| "parse_historical (r # rs) inputRanges =
     (let split = SplitN r (CHR ''='') 2 in
      if length split \<noteq> 2 then Inl (Errorf_invalid_range_flag r)
      else (case ParseUint_err (split ! 0) of
              Inl err \<Rightarrow> Inl err
            | Inr tid \<Rightarrow>
                (case ParseUint_err (split ! 1) of
                   Inl err \<Rightarrow> Inl err
                 | Inr tlen \<Rightarrow>
                     parse_historical rs
                       (inputRanges @ [\<lparr>TreeID = tid, TreeLength = tlen\<rparr>]))))"

text \<open>The scan for duplicate tree ids, with the map \<^verbatim>\<open>TreeIDs\<close> of the ids seen.\<close>

fun find_duplicate :: "(64 word \<rightharpoonup> unit) \<Rightarrow> LogRange list \<Rightarrow> 64 word option" where
  "find_duplicate TreeIDs [] = None"
| "find_duplicate TreeIDs (lr # lrs) =
     (if TreeIDs (TreeID lr) \<noteq> None then Some (TreeID lr)
      else find_duplicate (TreeIDs(TreeID lr \<mapsto> ())) lrs)"

text \<open>
  \<^verbatim>\<open>func (l *LogRangesFlag) Set(s string) error\<close>: the returned error (\<open>None\<close> for
  \<^verbatim>\<open>nil\<close>) and the receiver after the call. The receiver is reset before anything is
  parsed and assigned again only on success.
\<close>

definition Set :: "LogRangesFlag \<Rightarrow> string \<Rightarrow> error option \<times> LogRangesFlag" where
  "Set l s =
     (let ranges = Split s (CHR '','');
          l1 = l\<lparr>Ranges := \<lparr>LogRanges_Ranges = []\<rparr>\<rparr>
      in if length ranges < 1 then (Some Panic_slice_bounds, l1)
         else (case parse_historical (take (length ranges - 1) ranges) [] of
                 Inl err \<Rightarrow> (Some err, l1)
               | Inr inputRanges \<Rightarrow>
                   (case ParseUint_err (ranges ! (length ranges - 1)) of
                      Inl err \<Rightarrow> (Some err, l1)
                    | Inr lastTreeID \<Rightarrow>
                        (let inputRanges1 = inputRanges @ [\<lparr>TreeID = lastTreeID, TreeLength = 0\<rparr>]
                         in case find_duplicate Map.empty inputRanges1 of
                              Some d \<Rightarrow> (Some (Errorf_duplicate_tree_id d), l1)
                            | None \<Rightarrow> (None, l1\<lparr>Ranges := \<lparr>LogRanges_Ranges = inputRanges1\<rparr>\<rparr>)))))"

text \<open>\<^verbatim>\<open>func (l *LogRangesFlag) String() string\<close>.\<close>

definition Sprintf_range :: "LogRange \<Rightarrow> string" where
  "Sprintf_range r = Sprintf_d (TreeID r) @ ''='' @ Sprintf_d (TreeLength r)"

definition String :: "LogRangesFlag \<Rightarrow> string" where
  "String l = Join (map Sprintf_range (LogRanges_Ranges (Ranges l))) '',''"

section \<open>Backfill of the Redis index\<close>

text \<open>
  The loop of \<^verbatim>\<open>main\<close> in \<^verbatim>\<open>cmd/backfill-redis/main.go\<close>, with the helpers
  \<^verbatim>\<open>unmarshalEntryImpl\<close> and \<^verbatim>\<open>addToIndex\<close>. The Rekor client, the codecs of the entry types
  and the Redis client are other packages; the loop is embedded over them as parameters.

  The state of the outside world (the log server, Redis) is a value of a type \<open>'w\<close> that
  the two remote calls read and change. Decoding and key extraction compute on their
  argument alone. A Go \<^verbatim>\<open>error\<close> is its message.
\<close>

type_synonym go_error = string

text \<open>
  \<^verbatim>\<open>entry.Body\<close> has the type \<^verbatim>\<open>interface{}\<close>; the loop asserts that it is a string with
  \<^verbatim>\<open>entry.Body.(string)\<close>, which panics on anything else.
\<close>

datatype body = StringBody string | OtherBody

text \<open>
  \<^verbatim>\<open>resp.Payload\<close> is a Go map from uuid to entry. \<^verbatim>\<open>range\<close> visits a map in an order the
  run time chooses, so \<open>GetLogEntryByIndex\<close> gives the entries as the list of pairs of uuid
  and body in the order the loop visits them.
\<close>

record ('w, 'pe, 'e) services =
  GetLogEntryByIndex :: "'w \<Rightarrow> int \<Rightarrow> (go_error + (string \<times> body) list) \<times> 'w"
  DecodeString :: "string \<Rightarrow> go_error + string"
  UnmarshalProposedEntry :: "string \<Rightarrow> go_error + 'pe"
  UnmarshalEntry :: "'pe \<Rightarrow> go_error + 'e"
  Kind :: "'pe \<Rightarrow> string"
  APIVersion :: "'e \<Rightarrow> string"
  IndexKeys :: "'e \<Rightarrow> go_error + string list"
  Do_LPUSH :: "'w \<Rightarrow> string \<Rightarrow> string \<Rightarrow> go_error option \<times> 'w"

text \<open>
  What a run does that can be seen from outside, in order: the two remote calls, the
  lines it prints, and the message of \<^verbatim>\<open>log.Fatalf\<close>.
\<close>

datatype event =
    Call_GetLogEntryByIndex int
  | Call_LPUSH string string
  | Fatalf_retrieving go_error
  | Printf_error_unmarshalling string go_error
  | Printf_error_building_index_keys string go_error
  | Printf_error_inserting string string go_error
  | Printf_Uploaded string int string
  | Printf_Completed int
  | Printf_Errors int

text \<open>
  \<^verbatim>\<open>func unmarshalEntryImpl(e string) (types.EntryImpl, string, string, error)\<close>: base64,
  then the proposed entry, then the entry; the first error is returned.
\<close>

definition unmarshalEntryImpl ::
  "('w, 'pe, 'e) services \<Rightarrow> string \<Rightarrow> go_error + ('e \<times> string \<times> string)" where
  "unmarshalEntryImpl sv e =
     (case DecodeString sv e of
        Inl err \<Rightarrow> Inl err
      | Inr b \<Rightarrow>
          (case UnmarshalProposedEntry sv b of
             Inl err \<Rightarrow> Inl err
           | Inr pe \<Rightarrow>
               (case UnmarshalEntry sv pe of
                  Inl err \<Rightarrow> Inl err
                | Inr entry \<Rightarrow> Inr (entry, Kind sv pe, APIVersion sv entry))))"

text \<open>\<^verbatim>\<open>func addToIndex(ctx, redisClient, key, value string) error\<close>: one \<^verbatim>\<open>LPUSH\<close>.\<close>

definition addToIndex ::
  "('w, 'pe, 'e) services \<Rightarrow> 'w \<Rightarrow> string \<Rightarrow> string \<Rightarrow> go_error option \<times> 'w" where
  "addToIndex sv w key val = Do_LPUSH sv w key val"

text \<open>
  The loop \<^verbatim>\<open>for _, key := range keys\<close>: the world, the flag \<^verbatim>\<open>success\<close> and the events.
  The line \<^verbatim>\<open>Uploaded Redis entry\<close> is printed after the \<^verbatim>\<open>if\<close>, on both of its paths.
\<close>

fun add_keys ::
  "('w, 'pe, 'e) services \<Rightarrow> int \<Rightarrow> string \<Rightarrow> 'w \<Rightarrow> bool \<Rightarrow> string list
     \<Rightarrow> 'w \<times> bool \<times> event list" where
  "add_keys sv i uuid w success [] = (w, success, [])"
| "add_keys sv i uuid w success (key # keys) =
     (case addToIndex sv w key uuid of
        (Some err, w1) \<Rightarrow>
          (case add_keys sv i uuid w1 False keys of
             (w2, success2, evs) \<Rightarrow>
               (w2, success2,
                Call_LPUSH key uuid # Printf_error_inserting uuid key err
                  # Printf_Uploaded uuid i key # evs))
      | (None, w1) \<Rightarrow>
          (case add_keys sv i uuid w1 success keys of
             (w2, success2, evs) \<Rightarrow>
               (w2, success2, Call_LPUSH key uuid # Printf_Uploaded uuid i key # evs)))"

text \<open>
  The loop \<^verbatim>\<open>for uuid, entry := range resp.Payload\<close>. The flag is \<open>None\<close> when the type
  assertion on a body panics; the pairs after it are not reached.
\<close>

fun process_pairs ::
  "('w, 'pe, 'e) services \<Rightarrow> int \<Rightarrow> 'w \<Rightarrow> bool \<Rightarrow> (string \<times> body) list
     \<Rightarrow> bool option \<times> 'w \<times> event list" where
  "process_pairs sv i w success [] = (Some success, w, [])"
| "process_pairs sv i w success ((uuid, OtherBody) # rest) = (None, w, [])"
| "process_pairs sv i w success ((uuid, StringBody b) # rest) =
     (case unmarshalEntryImpl sv b of
        Inl err \<Rightarrow>
          (case process_pairs sv i w False rest of
             (r, w2, evs) \<Rightarrow> (r, w2, Printf_error_unmarshalling uuid err # evs))
      | Inr (e, kind, version) \<Rightarrow>
          (case IndexKeys sv e of
             Inl err \<Rightarrow>
               (case process_pairs sv i w False rest of
                  (r, w2, evs) \<Rightarrow> (r, w2, Printf_error_building_index_keys uuid err # evs))
           | Inr keys \<Rightarrow>
               (case add_keys sv i uuid w success keys of
                  (w1, success1, evs1) \<Rightarrow>
                    (case process_pairs sv i w1 success1 rest of
                       (r, w2, evs) \<Rightarrow> (r, w2, evs1 @ evs)))))"

text \<open>
  The body of the outer loop for one index: how it leaves the iteration (on to the next
  index, \<^verbatim>\<open>log.Fatalf\<close>, or a panic), the world and the events.
\<close>

datatype step = Next | Fatal | Panic

definition process_index ::
  "('w, 'pe, 'e) services \<Rightarrow> 'w \<Rightarrow> int \<Rightarrow> step \<times> 'w \<times> event list" where
  "process_index sv w i =
     (case GetLogEntryByIndex sv w i of
        (Inl err, w1) \<Rightarrow> (Fatal, w1, [Call_GetLogEntryByIndex i, Fatalf_retrieving err])
      | (Inr payload, w1) \<Rightarrow>
          (case process_pairs sv i w1 True payload of
             (None, w2, evs) \<Rightarrow> (Panic, w2, Call_GetLogEntryByIndex i # evs)
           | (Some success, w2, evs) \<Rightarrow>
               (Next, w2,
                Call_GetLogEntryByIndex i # evs
                  @ [if success then Printf_Completed i else Printf_Errors i])))"

text \<open>
  \<^verbatim>\<open>i++\<close> on a Go \<^verbatim>\<open>int\<close> of 64 bits: the largest value wraps to the smallest.
\<close>

definition maxInt :: int where
  "maxInt = 2 ^ 63 - 1"

definition minInt :: int where
  "minInt = - (2 ^ 63)"

definition incr :: "int \<Rightarrow> int" where
  "incr i = (if i = maxInt then minInt else i + 1)"

text \<open>
  How the program ends: \<^verbatim>\<open>main\<close> returns after the loop, \<^verbatim>\<open>log.Fatalf\<close> ends the process,
  or it panics.
\<close>

datatype exit = Returned | Exited_Fatalf | Panicked

text \<open>
  The loop \<^verbatim>\<open>for i := *startIndex; i <= *endIndex; i++\<close>, with the events so far in \<open>tr\<close>.
  With \<^verbatim>\<open>*endIndex\<close> the largest \<^verbatim>\<open>int\<close> the condition never fails and the loop need not
  end; then there is no result.
\<close>

partial_function (option) run ::
  "('w, 'pe, 'e) services \<Rightarrow> 'w \<Rightarrow> event list \<Rightarrow> int \<Rightarrow> int
     \<Rightarrow> (exit \<times> 'w \<times> event list) option" where
  [code]: "run sv w tr i endIndex =
     (if i \<le> endIndex
      then (case process_index sv w i of
              (Next, w1, evs) \<Rightarrow> run sv w1 (tr @ evs) (incr i) endIndex
            | (Fatal, w1, evs) \<Rightarrow> Some (Exited_Fatalf, w1, tr @ evs)
            | (Panic, w1, evs) \<Rightarrow> Some (Panicked, w1, tr @ evs))
      else Some (Returned, w, tr))"

text \<open>The run of the program from \<^verbatim>\<open>*startIndex\<close> to \<^verbatim>\<open>*endIndex\<close>.\<close>

definition backfill ::
  "('w, 'pe, 'e) services \<Rightarrow> 'w \<Rightarrow> int \<Rightarrow> int \<Rightarrow> (exit \<times> 'w \<times> event list) option" where
  "backfill sv w startIndex endIndex = run sv w [] startIndex endIndex"

section \<open>The vocabulary of the specification\<close>

text \<open>
  What the specification calls a decimal unsigned 64-bit integer: a non-empty string of
  the digits \<^verbatim>\<open>0\<close> to \<^verbatim>\<open>9\<close> whose value is below \<open>2 ^ 64\<close>. These definitions follow the
  specification's words, not the code; the theorems below relate them to \<open>ParseUint\<close>.
\<close>

definition is_digit :: "char \<Rightarrow> bool" where
  "is_digit c = (48 \<le> (of_char c :: nat) \<and> (of_char c :: nat) \<le> 57)"

definition dec_step :: "nat \<Rightarrow> char \<Rightarrow> nat" where
  "dec_step n c = 10 * n + (of_char c - 48)"

definition dec_value :: "string \<Rightarrow> nat" where
  "dec_value s = foldl dec_step 0 s"

definition is_decimal_u64 :: "string \<Rightarrow> bool" where
  "is_decimal_u64 s = (s \<noteq> [] \<and> list_all is_digit s \<and> dec_value s < 2 ^ 64)"


text \<open>
  A shard-range description in the specification's format
  \<^verbatim>\<open>treeID_1=length_1,...,treeID_active\<close>, built from the texts of its numbers: the pairs
  \<open>hist\<close> of the historical shards and the text \<open>t\<close> of the active tree id.
\<close>

definition historical_token :: "string \<times> string \<Rightarrow> string" where
  "historical_token p = fst p @ ''='' @ snd p"

definition description :: "(string \<times> string) list \<Rightarrow> string \<Rightarrow> string" where
  "description hist t = Join (map historical_token hist @ [t]) '',''"

definition well_formed :: "(string \<times> string) list \<Rightarrow> string \<Rightarrow> bool" where
  "well_formed hist t =
     (list_all (\<lambda>p. is_decimal_u64 (fst p) \<and> is_decimal_u64 (snd p)) hist \<and> is_decimal_u64 t)"

text \<open>
  The shards such a description denotes, in its order: a historical shard with the tree
  id and the length given, and the active shard, last, with the tree id given and no
  length (the zero value of the field).
\<close>

definition historical_shard :: "string \<times> string \<Rightarrow> LogRange" where
  "historical_shard p =
     \<lparr>TreeID = of_nat (dec_value (fst p)), TreeLength = of_nat (dec_value (snd p))\<rparr>"

definition active_shard :: "string \<Rightarrow> LogRange" where
  "active_shard t = \<lparr>TreeID = of_nat (dec_value t), TreeLength = 0\<rparr>"

definition shards :: "(string \<times> string) list \<Rightarrow> string \<Rightarrow> LogRange list" where
  "shards hist t = map historical_shard hist @ [active_shard t]"

text \<open>
  A token of the form \<^verbatim>\<open>a=b\<close>: it has an \<^verbatim>\<open>=\<close>, and the halves before and after the
  first one are decimal unsigned 64-bit integers.
\<close>

definition well_formed_historical :: "string \<Rightarrow> bool" where
  "well_formed_historical tok =
     (CHR ''='' \<in> set tok \<and>
      is_decimal_u64 (takeWhile (\<lambda>c. c \<noteq> CHR ''='') tok) \<and>
      is_decimal_u64 (tl (dropWhile (\<lambda>c. c \<noteq> CHR ''='') tok)))"

text \<open>
  The specification's error taxonomy over the errors \<open>Set\<close> returns: a \<^verbatim>\<open>FormatError\<close> is a
  missing separator or a field that is not a number, a \<^verbatim>\<open>DuplicateShardError\<close> names the
  repeated tree id.
\<close>

fun FormatError :: "error \<Rightarrow> bool" where
  "FormatError (Errorf_invalid_range_flag r) = True"
| "FormatError (NumError s e) = True"
| "FormatError (Errorf_duplicate_tree_id d) = False"
| "FormatError Panic_slice_bounds = False"

definition DuplicateShardError :: "64 word \<Rightarrow> error" where
  "DuplicateShardError d = Errorf_duplicate_tree_id d"

text \<open>The empty configuration \<^verbatim>\<open>api.LogRanges{}\<close> in a flag.\<close>

definition empty_flag :: LogRangesFlag where
  "empty_flag = \<lparr>Ranges = \<lparr>LogRanges_Ranges = []\<rparr>\<rparr>"

text \<open>A number written without leading zeros, as \<^verbatim>\<open>%d\<close> prints it.\<close>

definition no_leading_zero :: "string \<Rightarrow> bool" where
  "no_leading_zero s = (s = ''0'' \<or> hd s \<noteq> CHR ''0'')"

text \<open>The two halves of a token around its first \<^verbatim>\<open>=\<close>.\<close>

definition halves :: "string \<Rightarrow> string \<times> string" where
  "halves tok = (takeWhile (\<lambda>c. c \<noteq> CHR ''='') tok, tl (dropWhile (\<lambda>c. c \<noteq> CHR ''='') tok))"


text \<open>
  The vocabulary of the specification for the backfill. The retrieval service returns
  pairs of an entry id and a raw entry, a text; \<open>string_entry\<close> is such a pair as the loop
  gets it. A failure is recorded by one of the three lines that report an error; the
  outcome of an index is the line that ends its iteration.
\<close>

definition string_entry :: "string \<times> string \<Rightarrow> string \<times> body" where
  "string_entry p = (fst p, StringBody (snd p))"

fun failure_record :: "event \<Rightarrow> bool" where
  "failure_record (Printf_error_unmarshalling uuid err) = True"
| "failure_record (Printf_error_building_index_keys uuid err) = True"
| "failure_record (Printf_error_inserting uuid key err) = True"
| "failure_record e = False"

definition outcome :: "bool \<Rightarrow> int \<Rightarrow> event" where
  "outcome success i = (if success then Printf_Completed i else Printf_Errors i)"

text \<open>The events that carry the index of the outer loop: the retrieval and the outcome.\<close>

fun index_event :: "int \<Rightarrow> event \<Rightarrow> bool" where
  "index_event j (Call_GetLogEntryByIndex i) = (i = j)"
| "index_event j (Printf_Completed i) = (i = j)"
| "index_event j (Printf_Errors i) = (i = j)"
| "index_event j e = False"

text \<open>
  A small world to run the loop in. The log has one entry at index 0, two at index 1,
  none at index 2, and cannot be read from index 3 on. The raw entry \<^verbatim>\<open>junk\<close> is not
  base64. Every entry has the keys \<^verbatim>\<open>k1\<close> and \<^verbatim>\<open>k2\<close>; Redis refuses to push to \<^verbatim>\<open>k2\<close>. The
  state of the world is the list of the pairs pushed, the latest first.
\<close>

definition example_services :: "((string \<times> string) list, string, string) services" where
  "example_services =
     \<lparr>GetLogEntryByIndex = (\<lambda>w i.
        (if i = 0 then Inr [(''u0'', StringBody ''good'')]
         else if i = 1 then Inr [(''u1'', StringBody ''junk''), (''u2'', StringBody ''good'')]
         else if i = 2 then Inr []
         else Inl ''not found'', w)),
      DecodeString = (\<lambda>e. if e = ''junk'' then Inl ''illegal base64 data'' else Inr e),
      UnmarshalProposedEntry = (\<lambda>b. Inr b),
      UnmarshalEntry = (\<lambda>pe. Inr pe),
      Kind = (\<lambda>pe. ''rekord''),
      APIVersion = (\<lambda>e. ''0.0.1''),
      IndexKeys = (\<lambda>e. Inr [''k1'', ''k2'']),
      Do_LPUSH = (\<lambda>w key val.
        if key = ''k2'' then (Some ''connection refused'', w) else (None, (key, val) # w))\<rparr>"

text \<open>The events of the loop over the pairs of one index.\<close>

fun pair_event :: "event \<Rightarrow> bool" where
  "pair_event (Call_LPUSH key val) = True"
| "pair_event (Printf_error_unmarshalling uuid err) = True"
| "pair_event (Printf_error_building_index_keys uuid err) = True"
| "pair_event (Printf_error_inserting uuid key err) = True"
| "pair_event (Printf_Uploaded uuid i key) = True"
| "pair_event e = False"

fun is_LPUSH :: "event \<Rightarrow> bool" where
  "is_LPUSH (Call_LPUSH key val) = True"
| "is_LPUSH e = False"

fun is_Uploaded :: "event \<Rightarrow> bool" where
  "is_Uploaded (Printf_Uploaded uuid i key) = True"
| "is_Uploaded e = False"


section \<open>ParseUint accepts exactly the decimal unsigned 64-bit integers\<close>

lemma digit_val_digit: "is_digit c \<Longrightarrow> digit_val c = Some (of_char c - 48)"
  by (simp add: is_digit_def digit_val_def)

lemma digit_val_nondigit:
  "\<not> is_digit c \<Longrightarrow> digit_val c = None \<or> (\<exists>d. digit_val c = Some d \<and> 10 \<le> d)"
  by (auto simp add: is_digit_def digit_val_def Let_def)

lemma foldl_dec_step_mono: "n \<le> foldl dec_step n cs"
proof (induction cs arbitrary: n)
  case Nil
  show ?case by simp
next
  case (Cons c cs)
  have "n \<le> dec_step n c" by (simp add: dec_step_def)
  also have "\<dots> \<le> foldl dec_step (dec_step n c) cs" by (rule Cons.IH)
  finally show ?case by simp
qed

lemma unat_cutoff: "unat cutoff = 1844674407370955162"
  by (simp add: cutoff_def maxUint64_def)

lemma not_cutoff_iff: "(\<not> cutoff \<le> n) = (unat n < 1844674407370955162)"
  by (simp add: word_le_nat_alt unat_cutoff not_le)

lemma unat_times_10:
  assumes "\<not> cutoff \<le> n"
  shows "unat (n * 10) = unat n * 10"
proof -
  have "unat n < 1844674407370955162" using assms by (simp add: not_cutoff_iff)
  then have "unat n * unat (10 :: 64 word) < 2 ^ LENGTH(64)" by simp
  then have "unat (n * 10) = unat n * unat (10 :: 64 word)"
    by (simp only: unat_mult_lem [THEN iffD1])
  then show ?thesis by simp
qed

lemma unat_digit: "d < 10 \<Longrightarrow> unat (of_nat d :: 64 word) = d"
  by (simp add: unat_of_nat)

lemma unat_plus_digit:
  fixes m :: "64 word"
  assumes "d < 10"
  shows "(m + of_nat d < m) = (2 ^ 64 \<le> unat m + d)"
proof -
  have "(m + of_nat d < m) = (\<not> m \<le> m + of_nat d)" by (simp add: not_le)
  also have "\<dots> = (\<not> unat m + unat (of_nat d :: 64 word) < 2 ^ LENGTH(64))"
    by (simp only: no_olen_add_nat)
  also have "\<dots> = (2 ^ 64 \<le> unat m + d)"
    using assms by (simp add: unat_digit not_less)
  finally show ?thesis .
qed

lemma unat_plus_digit_val:
  fixes m :: "64 word"
  assumes "d < 10" "unat m + d < 2 ^ 64"
  shows "unat (m + of_nat d) = unat m + d"
proof -
  have "unat m + unat (of_nat d :: 64 word) < 2 ^ LENGTH(64)"
    using assms by (simp add: unat_digit)
  then have "unat (m + of_nat d) = unat m + unat (of_nat d :: 64 word)"
    by (simp only: unat_add_lem [THEN iffD1])
  then show ?thesis using assms by (simp add: unat_digit)
qed

lemma not_above_max: "\<not> maxUint64 < (n :: 64 word)"
  by (simp add: maxUint64_def not_less)

lemma unat_lt_64: "unat (n :: 64 word) < 18446744073709551616"
  using unsigned_less [of n, where 'a = nat] by simp

lemma parse_digits_digits:
  "list_all is_digit cs \<Longrightarrow>
   parse_digits n cs =
     (if foldl dec_step (unat n) cs < 2 ^ 64
      then Inr (of_nat (foldl dec_step (unat n) cs)) else Inl ErrRange)"
proof (induction cs arbitrary: n)
  case Nil
  show ?case by (simp add: unat_lt_64)
next
  case (Cons c cs)
  let ?d = "of_char c - 48 :: nat"
  from Cons.prems have dig: "is_digit c" and rest: "list_all is_digit cs" by simp_all
  have dv: "digit_val c = Some ?d" using dig by (rule digit_val_digit)
  have d10: "?d < 10" using dig unfolding is_digit_def by linarith
  show ?case
  proof (cases "cutoff \<le> n")
    case True
    then have "1844674407370955162 \<le> unat n" by (simp add: word_le_nat_alt unat_cutoff)
    then have "2 ^ 64 \<le> dec_step (unat n) c" by (simp add: dec_step_def)
    also have "\<dots> \<le> foldl dec_step (dec_step (unat n) c) cs" by (rule foldl_dec_step_mono)
    finally have "\<not> foldl dec_step (unat n) (c # cs) < 2 ^ 64" by simp
    then show ?thesis using True dv d10 by simp
  next
    case False
    then have u10: "unat (n * 10) = unat n * 10" by (rule unat_times_10)
    show ?thesis
    proof (cases "2 ^ 64 \<le> unat (n * 10) + ?d")
      case True
      then have ov: "n * 10 + of_nat ?d < n * 10" using d10 by (simp add: unat_plus_digit)
      from True u10 have "2 ^ 64 \<le> dec_step (unat n) c" by (simp add: dec_step_def)
      also have "\<dots> \<le> foldl dec_step (dec_step (unat n) c) cs" by (rule foldl_dec_step_mono)
      finally have "\<not> foldl dec_step (unat n) (c # cs) < 2 ^ 64" by simp
      then show ?thesis using False dv d10 ov by (simp add: Let_def)
    next
      case nov: False
      then have nov': "\<not> n * 10 + of_nat ?d < n * 10" using d10 by (simp add: unat_plus_digit)
      have "unat (n * 10 + of_nat ?d) = unat (n * 10) + ?d"
        using d10 nov by (intro unat_plus_digit_val) simp_all
      then have val: "unat (n * 10 + of_nat ?d) = dec_step (unat n) c"
        using u10 by (simp add: dec_step_def)
      have "parse_digits n (c # cs) = parse_digits (n * 10 + of_nat ?d) cs"
        using False dv d10 nov' by (simp add: Let_def not_above_max)
      also have "\<dots> = (if foldl dec_step (unat (n * 10 + of_nat ?d)) cs < 2 ^ 64
          then Inr (of_nat (foldl dec_step (unat (n * 10 + of_nat ?d)) cs)) else Inl ErrRange)"
        using rest by (rule Cons.IH)
      finally show ?thesis by (simp add: val)
    qed
  qed
qed

lemma parse_digits_nondigit:
  "\<not> list_all is_digit cs \<Longrightarrow> \<exists>e. parse_digits n cs = Inl e"
proof (induction cs arbitrary: n)
  case Nil
  then show ?case by simp
next
  case (Cons c cs)
  show ?case
  proof (cases "is_digit c")
    case True
    with Cons.prems have "\<not> list_all is_digit cs" by simp
    then have "\<And>m. \<exists>e. parse_digits m cs = Inl e" by (rule Cons.IH)
    then show ?thesis by (simp add: Let_def split: option.split)
  next
    case False
    then show ?thesis using digit_val_nondigit [of c] by auto
  qed
qed

lemma ParseUint_decimal: "is_decimal_u64 s \<Longrightarrow> ParseUint s = Inr (of_nat (dec_value s))"
  by (simp add: is_decimal_u64_def ParseUint_def parse_digits_digits dec_value_def)

lemma ParseUint_not_decimal: "\<not> is_decimal_u64 s \<Longrightarrow> \<exists>e. ParseUint s = Inl e"
proof (cases "s = []")
  case True
  then show ?thesis by (simp add: ParseUint_def)
next
  case False
  assume nd: "\<not> is_decimal_u64 s"
  show ?thesis
  proof (cases "list_all is_digit s")
    case True
    with nd False have "\<not> dec_value s < 2 ^ 64" by (simp add: is_decimal_u64_def)
    then show ?thesis using True False
      by (simp add: ParseUint_def parse_digits_digits dec_value_def)
  next
    case nondigit: False
    then show ?thesis using False parse_digits_nondigit [of s 0] by (simp add: ParseUint_def)
  qed
qed

lemma ParseUint_Inr_iff:
  "(ParseUint s = Inr w) = (is_decimal_u64 s \<and> w = of_nat (dec_value s))"
proof (cases "is_decimal_u64 s")
  case True
  then show ?thesis by (auto simp add: ParseUint_decimal)
next
  case False
  then show ?thesis using ParseUint_not_decimal [of s] by auto
qed

lemma ParseUint_err_decimal:
  "is_decimal_u64 s \<Longrightarrow> ParseUint_err s = Inr (of_nat (dec_value s))"
  by (simp add: ParseUint_err_def ParseUint_decimal)

lemma ParseUint_err_not_decimal:
  "\<not> is_decimal_u64 s \<Longrightarrow> \<exists>e. ParseUint_err s = Inl (NumError s e)"
  using ParseUint_not_decimal [of s] by (auto simp add: ParseUint_err_def)

lemma is_digit_not_sep: "is_digit c \<Longrightarrow> c \<noteq> CHR ''='' \<and> c \<noteq> CHR '',''"
  by (auto simp add: is_digit_def)

lemma decimal_no_sep:
  "is_decimal_u64 s \<Longrightarrow> CHR ''='' \<notin> set s \<and> CHR '','' \<notin> set s"
  using is_digit_not_sep by (auto simp add: is_decimal_u64_def list_all_iff)

lemma unat_of_nat_dec: "dec_value s < 2 ^ 64 \<Longrightarrow> unat (of_nat (dec_value s) :: 64 word) = dec_value s"
  by (simp add: unat_of_nat)


section \<open>Split and Join are inverse to each other\<close>

lemma Index_None_iff: "(Index s sep = None) = (sep \<notin> set s)"
  by (induction s) auto

lemma Index_append_sep: "sep \<notin> set a \<Longrightarrow> Index (a @ sep # b) sep = Some (length a)"
  by (induction a) auto

lemma Index_Some_decomp:
  "Index s sep = Some m \<Longrightarrow> s = take m s @ sep # drop (m + 1) s \<and> sep \<notin> set (take m s)"
proof (induction s arbitrary: m)
  case Nil
  then show ?case by simp
next
  case (Cons c cs)
  show ?case
  proof (cases "c = sep")
    case True
    with Cons.prems show ?thesis by simp
  next
    case False
    with Cons.prems obtain k where k: "Index cs sep = Some k" and m: "m = Suc k" by auto
    from Cons.IH [OF k] False m show ?thesis by auto
  qed
qed

lemma Count_append: "Count (a @ b) sep = Count a sep + Count b sep"
  by (simp add: Count_def)

lemma Count_absent: "sep \<notin> set a \<Longrightarrow> Count a sep = 0"
  by (induction a) (auto simp add: Count_def)

lemma Count_Cons_sep: "Count (sep # s) sep = Suc (Count s sep)"
  by (simp add: Count_def)

lemma Count_le_length: "Count s sep \<le> length s"
  by (simp add: Count_def)

lemma genSplit_loop_not_Nil: "genSplit_loop k s sep \<noteq> []"
  by (cases k) (auto split: option.split)

lemma Join_Cons: "elems \<noteq> [] \<Longrightarrow> Join (a # elems) sep = a @ sep @ Join elems sep"
  by (cases elems) simp_all

lemma Join_genSplit_loop: "Join (genSplit_loop k s sep) [sep] = s"
proof (induction k arbitrary: s)
  case 0
  show ?case by simp
next
  case (Suc k)
  show ?case
  proof (cases "Index s sep")
    case None
    then show ?thesis by simp
  next
    case (Some m)
    from Index_Some_decomp [OF Some] have s: "s = take m s @ sep # drop (m + 1) s" by simp
    have "Join (genSplit_loop (Suc k) s sep) [sep]
            = take m s @ [sep] @ Join (genSplit_loop k (drop (m + 1) s) sep) [sep]"
      using Some by (simp add: Join_Cons genSplit_loop_not_Nil)
    also have "\<dots> = take m s @ sep # drop (m + 1) s" by (simp add: Suc.IH)
    finally show ?thesis using s by simp
  qed
qed

lemma Split_eq: "Split s sep = genSplit_loop (Count s sep) s sep"
  using Count_le_length [of s sep] by (simp add: Split_def genSplit_def Let_def)

lemma Split_not_Nil: "Split s sep \<noteq> []"
  by (simp add: Split_eq genSplit_loop_not_Nil)

lemma Join_Split: "Join (Split s sep) [sep] = s"
  by (simp add: Split_eq Join_genSplit_loop)

lemma genSplit_loop_absent: "sep \<notin> set s \<Longrightarrow> genSplit_loop k s sep = [s]"
  by (cases k) (simp_all add: Index_None_iff [THEN iffD2])

lemma genSplit_loop_append:
  "sep \<notin> set a \<Longrightarrow> genSplit_loop (Suc k) (a @ sep # b) sep = a # genSplit_loop k b sep"
  by (simp add: Index_append_sep)

lemma Count_Join:
  "elems \<noteq> [] \<Longrightarrow> \<forall>t\<in>set elems. sep \<notin> set t \<Longrightarrow> Count (Join elems [sep]) sep = length elems - 1"
proof (induction elems)
  case Nil
  then show ?case by simp
next
  case (Cons a elems)
  show ?case
  proof (cases "elems = []")
    case True
    with Cons.prems show ?thesis by (simp add: Count_absent)
  next
    case False
    then obtain k where k: "length elems = Suc k" by (cases elems) auto
    from Cons.prems have a: "sep \<notin> set a" by simp
    have "Count (Join (a # elems) [sep]) sep = Count a sep + Suc (Count (Join elems [sep]) sep)"
      using False by (simp add: Join_Cons Count_append Count_Cons_sep)
    also have "\<dots> = Suc (length elems - 1)"
      using Cons.IH [OF False] Cons.prems a by (simp add: Count_absent)
    finally show ?thesis using k by simp
  qed
qed

lemma genSplit_loop_Join:
  "elems \<noteq> [] \<Longrightarrow> \<forall>t\<in>set elems. sep \<notin> set t \<Longrightarrow>
   genSplit_loop (length elems - 1) (Join elems [sep]) sep = elems"
proof (induction elems)
  case Nil
  then show ?case by simp
next
  case (Cons a elems)
  show ?case
  proof (cases "elems = []")
    case True
    with Cons.prems show ?thesis by simp
  next
    case False
    then obtain k where k: "length elems = Suc k" by (cases elems) auto
    from Cons.prems have a: "sep \<notin> set a" by simp
    have "genSplit_loop (length (a # elems) - 1) (Join (a # elems) [sep]) sep
            = genSplit_loop (Suc k) (a @ sep # Join elems [sep]) sep"
      using False k by (simp add: Join_Cons)
    also have "\<dots> = a # genSplit_loop k (Join elems [sep]) sep"
      using a by (rule genSplit_loop_append)
    also have "\<dots> = a # elems" using Cons.IH [OF False] Cons.prems k by simp
    finally show ?thesis .
  qed
qed

lemma Split_Join:
  "elems \<noteq> [] \<Longrightarrow> \<forall>t\<in>set elems. sep \<notin> set t \<Longrightarrow> Split (Join elems [sep]) sep = elems"
  using genSplit_loop_Join [of elems sep] by (simp add: Split_eq Count_Join)

lemma SplitN_2_absent: "sep \<notin> set r \<Longrightarrow> SplitN r sep 2 = [r]"
  by (simp add: SplitN_def genSplit_def Let_def genSplit_loop_absent)

lemma SplitN_2_append: "sep \<notin> set a \<Longrightarrow> SplitN (a @ sep # b) sep 2 = [a, b]"
proof -
  assume a: "sep \<notin> set a"
  have "SplitN (a @ sep # b) sep 2 = genSplit_loop (Suc 0) (a @ sep # b) sep"
    by (simp add: SplitN_def genSplit_def Let_def)
  also have "\<dots> = a # genSplit_loop 0 b sep" using a by (rule genSplit_loop_append)
  finally show ?thesis by simp
qed


section \<open>Parsing a well-formed description, and the scan for duplicates\<close>

lemma SplitN_historical_token:
  "is_decimal_u64 (fst p) \<Longrightarrow> SplitN (historical_token p) (CHR ''='') 2 = [fst p, snd p]"
  using SplitN_2_append [of "CHR ''=''" "fst p" "snd p"]
  by (simp add: historical_token_def decimal_no_sep)

lemma parse_historical_well_formed:
  "list_all (\<lambda>p. is_decimal_u64 (fst p) \<and> is_decimal_u64 (snd p)) hist \<Longrightarrow>
   parse_historical (map historical_token hist) inputRanges
     = Inr (inputRanges @ map historical_shard hist)"
proof (induction hist arbitrary: inputRanges)
  case Nil
  show ?case by simp
next
  case (Cons p hist)
  from Cons.prems have a: "is_decimal_u64 (fst p)" and b: "is_decimal_u64 (snd p)"
    and rest: "list_all (\<lambda>p. is_decimal_u64 (fst p) \<and> is_decimal_u64 (snd p)) hist"
    by simp_all
  have "parse_historical (map historical_token (p # hist)) inputRanges
          = parse_historical (map historical_token hist) (inputRanges @ [historical_shard p])"
    using a b by (simp add: SplitN_historical_token ParseUint_err_decimal historical_shard_def)
  also have "\<dots> = Inr ((inputRanges @ [historical_shard p]) @ map historical_shard hist)"
    using rest by (rule Cons.IH)
  finally show ?case by simp
qed

lemma find_duplicate_None_iff:
  "(find_duplicate TreeIDs lrs = None)
     = (distinct (map TreeID lrs) \<and> (\<forall>lr\<in>set lrs. TreeIDs (TreeID lr) = None))"
proof (induction lrs arbitrary: TreeIDs)
  case Nil
  show ?case by simp
next
  case (Cons lr lrs)
  show ?case
  proof (cases "TreeIDs (TreeID lr)")
    case None
    have "(\<forall>r\<in>set lrs. (TreeIDs(TreeID lr \<mapsto> ())) (TreeID r) = None)
            = (TreeID lr \<notin> set (map TreeID lrs) \<and> (\<forall>r\<in>set lrs. TreeIDs (TreeID r) = None))"
      by (auto simp add: image_iff)
    then show ?thesis using None by (simp add: Cons.IH) blast
  next
    case (Some u)
    then show ?thesis by simp
  qed
qed

lemma find_duplicate_first:
  "map TreeID lrs = pre @ x # post \<Longrightarrow> distinct pre \<Longrightarrow>
   \<forall>y\<in>set pre. TreeIDs y = None \<Longrightarrow> x \<in> set pre \<or> TreeIDs x \<noteq> None \<Longrightarrow>
   find_duplicate TreeIDs lrs = Some x"
proof (induction pre arbitrary: lrs TreeIDs)
  case Nil
  then obtain lr lrs' where "lrs = lr # lrs'" "TreeID lr = x" by auto
  with Nil show ?case by auto
next
  case (Cons y pre)
  then obtain lr lrs' where lrs: "lrs = lr # lrs'" and y: "TreeID lr = y"
    and rest: "map TreeID lrs' = pre @ x # post" by auto
  have "find_duplicate (TreeIDs(y \<mapsto> ())) lrs' = Some x"
  proof (rule Cons.IH [OF rest])
    show "distinct pre" using Cons.prems by simp
    show "\<forall>z\<in>set pre. (TreeIDs(y \<mapsto> ())) z = None" using Cons.prems by auto
    show "x \<in> set pre \<or> (TreeIDs(y \<mapsto> ())) x \<noteq> None" using Cons.prems by auto
  qed
  then show ?case using lrs y Cons.prems by simp
qed

lemma first_collision_exists:
  "\<not> distinct xs \<Longrightarrow> \<exists>pre x post. xs = pre @ x # post \<and> distinct pre \<and> x \<in> set pre"
proof (induction xs rule: rev_induct)
  case Nil
  then show ?case by simp
next
  case (snoc a xs)
  show ?case
  proof (cases "distinct xs")
    case True
    with snoc.prems have "a \<in> set xs" by simp
    with True show ?thesis by blast
  next
    case False
    from snoc.IH [OF False] obtain pre x post
      where "xs = pre @ x # post" "distinct pre" "x \<in> set pre" by blast
    then have "xs @ [a] = pre @ x # (post @ [a])" by simp
    then show ?thesis using \<open>distinct pre\<close> \<open>x \<in> set pre\<close> by blast
  qed
qed

lemma Split_description:
  assumes "well_formed hist t"
  shows "Split (description hist t) (CHR '','') = map historical_token hist @ [t]"
proof -
  have "\<forall>tok\<in>set (map historical_token hist @ [t]). CHR '','' \<notin> set tok"
    using assms by (auto simp add: well_formed_def list_all_iff historical_token_def decimal_no_sep)
  then show ?thesis
    unfolding description_def
    using Split_Join [of "map historical_token hist @ [t]" "CHR '',''"] by simp
qed

lemma Set_parsed:
  assumes "well_formed hist t"
  shows "Set l (description hist t) =
     (case find_duplicate Map.empty (shards hist t) of
        Some d \<Rightarrow> (Some (Errorf_duplicate_tree_id d), empty_flag)
      | None \<Rightarrow> (None, \<lparr>Ranges = \<lparr>LogRanges_Ranges = shards hist t\<rparr>\<rparr>))"
proof -
  from assms have h: "list_all (\<lambda>p. is_decimal_u64 (fst p) \<and> is_decimal_u64 (snd p)) hist"
    and t: "is_decimal_u64 t" by (simp_all add: well_formed_def)
  have ph: "parse_historical (map historical_token hist) [] = Inr (map historical_shard hist)"
    using parse_historical_well_formed [OF h, of "[]"] by simp
  have lt: "(map historical_token hist @ [t]) ! length hist = t"
    by (simp add: nth_append)
  show ?thesis
    unfolding Set_def Split_description [OF assms]
    by (simp add: ph lt ParseUint_err_decimal [OF t] shards_def active_shard_def empty_flag_def
             split: option.split)
qed

section \<open>Parsing an ill-formed description\<close>

lemma SplitN_2_cases:
  "SplitN r sep 2 = (case Index r sep of None \<Rightarrow> [r] | Some m \<Rightarrow> [take m r, drop (m + 1) r])"
proof (cases "Index r sep")
  case None
  then have "sep \<notin> set r" by (simp add: Index_None_iff)
  then show ?thesis using None by (simp add: SplitN_2_absent)
next
  case (Some m)
  from Index_Some_decomp [OF Some]
  have r: "r = take m r @ sep # drop (m + 1) r" and a: "sep \<notin> set (take m r)" by simp_all
  have "SplitN (take m r @ sep # drop (m + 1) r) sep 2 = [take m r, drop (m + 1) r]"
    using a by (rule SplitN_2_append)
  then show ?thesis using r Some by simp
qed

lemma takeWhile_until_sep: "sep \<notin> set a \<Longrightarrow> takeWhile (\<lambda>c. c \<noteq> sep) (a @ sep # b) = a"
  by (induction a) auto

lemma dropWhile_until_sep: "sep \<notin> set a \<Longrightarrow> dropWhile (\<lambda>c. c \<noteq> sep) (a @ sep # b) = sep # b"
  by (induction a) auto

lemma Index_Some_halves:
  assumes "Index r sep = Some m"
  shows "take m r = takeWhile (\<lambda>c. c \<noteq> sep) r"
    and "drop (m + 1) r = tl (dropWhile (\<lambda>c. c \<noteq> sep) r)"
proof -
  from Index_Some_decomp [OF assms]
  have r: "r = take m r @ sep # drop (m + 1) r" and a: "sep \<notin> set (take m r)" by simp_all
  have tw: "takeWhile (\<lambda>c. c \<noteq> sep) (take m r @ sep # drop (m + 1) r) = take m r"
    using a by (rule takeWhile_until_sep)
  have dw: "dropWhile (\<lambda>c. c \<noteq> sep) (take m r @ sep # drop (m + 1) r) = sep # drop (m + 1) r"
    using a by (rule dropWhile_until_sep)
  show "take m r = takeWhile (\<lambda>c. c \<noteq> sep) r" using tw r by simp
  show "drop (m + 1) r = tl (dropWhile (\<lambda>c. c \<noteq> sep) r)" using dw r by simp
qed

lemma SplitN_first_sep:
  "SplitN r sep 2 =
     (if sep \<in> set r
      then [takeWhile (\<lambda>c. c \<noteq> sep) r, tl (dropWhile (\<lambda>c. c \<noteq> sep) r)] else [r])"
proof (cases "Index r sep")
  case None
  then show ?thesis by (simp add: SplitN_2_cases Index_None_iff [symmetric])
next
  case (Some m)
  then have "sep \<in> set r" using Index_None_iff [of r sep] by simp
  then show ?thesis using Some Index_Some_halves [OF Some] by (simp add: SplitN_2_cases)
qed

lemma parse_historical_token_ok:
  assumes "well_formed_historical r"
  shows "parse_historical (r # rs) inputRanges =
     parse_historical rs (inputRanges @
       [\<lparr>TreeID = of_nat (dec_value (takeWhile (\<lambda>c. c \<noteq> CHR ''='') r)),
         TreeLength = of_nat (dec_value (tl (dropWhile (\<lambda>c. c \<noteq> CHR ''='') r)))\<rparr>])"
  using assms by (simp add: SplitN_first_sep well_formed_historical_def ParseUint_err_decimal)

lemma parse_historical_token_bad:
  assumes nwf: "\<not> well_formed_historical r"
  shows "\<exists>e. parse_historical (r # rs) inputRanges = Inl e \<and> FormatError e"
proof (cases "CHR ''='' \<in> set r")
  case False
  then show ?thesis by (simp add: SplitN_first_sep)
next
  case True
  let ?a = "takeWhile (\<lambda>c. c \<noteq> CHR ''='') r" and ?b = "tl (dropWhile (\<lambda>c. c \<noteq> CHR ''='') r)"
  show ?thesis
  proof (cases "is_decimal_u64 ?a")
    case nda: False
    from ParseUint_err_not_decimal [OF nda] obtain e where "ParseUint_err ?a = Inl (NumError ?a e)" ..
    then show ?thesis using True by (simp add: SplitN_first_sep)
  next
    case da: True
    with nwf True have ndb: "\<not> is_decimal_u64 ?b" by (simp add: well_formed_historical_def)
    from ParseUint_err_not_decimal [OF ndb] obtain e where "ParseUint_err ?b = Inl (NumError ?b e)" ..
    then show ?thesis using True da by (simp add: SplitN_first_sep ParseUint_err_decimal)
  qed
qed

lemma parse_historical_ill_formed:
  "\<exists>tok\<in>set rs. \<not> well_formed_historical tok \<Longrightarrow>
   \<exists>e. parse_historical rs inputRanges = Inl e \<and> FormatError e"
proof (induction rs arbitrary: inputRanges)
  case Nil
  then show ?case by simp
next
  case (Cons r rs)
  show ?case
  proof (cases "well_formed_historical r")
    case True
    with Cons.prems have "\<exists>tok\<in>set rs. \<not> well_formed_historical tok" by simp
    from Cons.IH [OF this] show ?thesis by (simp only: parse_historical_token_ok [OF True])
  next
    case False
    then show ?thesis by (rule parse_historical_token_bad)
  qed
qed

lemma parse_historical_Inl_FormatError:
  "parse_historical rs inputRanges = Inl e \<Longrightarrow> FormatError e"
proof (induction rs arbitrary: inputRanges)
  case Nil
  then show ?case by simp
next
  case (Cons r rs)
  show ?case
  proof (cases "well_formed_historical r")
    case True
    from Cons.prems show ?thesis
      unfolding parse_historical_token_ok [OF True] by (rule Cons.IH)
  next
    case False
    from parse_historical_token_bad [OF False, of rs inputRanges] Cons.prems
    show ?thesis by auto
  qed
qed

lemma Set_ill_formed:
  assumes "(\<exists>tok\<in>set (butlast (Split s (CHR '',''))). \<not> well_formed_historical tok)
           \<or> \<not> is_decimal_u64 (last (Split s (CHR '','')))"
  shows "\<exists>e. Set l s = (Some e, empty_flag) \<and> FormatError e"
proof -
  let ?ranges = "Split s (CHR '','')"
  have ne: "?ranges \<noteq> []" by (rule Split_not_Nil)
  then have len: "\<not> length ?ranges < 1" by (cases ?ranges) simp_all
  have bl: "take (length ?ranges - 1) ?ranges = butlast ?ranges" by (simp add: butlast_conv_take)
  have la: "?ranges ! (length ?ranges - 1) = last ?ranges" using ne by (simp add: last_conv_nth)
  show ?thesis
  proof (cases "parse_historical (butlast ?ranges) []")
    case (Inl e)
    then have "FormatError e" by (rule parse_historical_Inl_FormatError)
    then show ?thesis using Inl len
      by (simp add: Set_def Let_def bl empty_flag_def del: One_nat_def)
  next
    case (Inr inputRanges)
    then have "\<not> (\<exists>tok\<in>set (butlast ?ranges). \<not> well_formed_historical tok)"
      using parse_historical_ill_formed [of "butlast ?ranges" "[]"] by auto
    with assms have "\<not> is_decimal_u64 (last ?ranges)" by blast
    from ParseUint_err_not_decimal [OF this] obtain e
      where "ParseUint_err (last ?ranges) = Inl (NumError (last ?ranges) e)" ..
    then show ?thesis using Inr len
      by (simp add: Set_def Let_def bl la empty_flag_def del: One_nat_def)
  qed
qed

section \<open>Rendering numbers, and parsing them back\<close>

declare digits_of.simps [simp del]

lemma of_char_digit_char: "(d :: nat) < 10 \<Longrightarrow> of_char (char_of (48 + d)) = 48 + d"
  by simp

lemma is_digit_char_of: "(d :: nat) < 10 \<Longrightarrow> is_digit (char_of (48 + d))"
  by (simp add: is_digit_def)

lemma digits_of_digits: "list_all is_digit (digits_of n)"
proof (induction n rule: digits_of.induct)
  case (1 n)
  show ?case
  proof (cases "n < 10")
    case True
    then show ?thesis by (subst digits_of.simps) (simp add: is_digit_char_of)
  next
    case False
    have "n mod 10 < 10" by simp
    then have "is_digit (char_of (48 + n mod 10))" by (rule is_digit_char_of)
    then show ?thesis using False 1 by (subst digits_of.simps) simp
  qed
qed

lemma digits_of_not_Nil: "digits_of n \<noteq> []"
  by (subst digits_of.simps) simp

lemma dec_value_snoc: "dec_value (xs @ [c]) = 10 * dec_value xs + (of_char c - 48)"
  by (simp add: dec_value_def dec_step_def)

lemma dec_value_digits_of: "dec_value (digits_of n) = n"
proof (induction n rule: digits_of.induct)
  case (1 n)
  show ?case
  proof (cases "n < 10")
    case True
    then have "dec_value (digits_of n) = dec_value ([] @ [char_of (48 + n)])"
      by (subst digits_of.simps) simp
    also have "\<dots> = n" using True
      by (simp only: dec_value_snoc of_char_digit_char) (simp add: dec_value_def)
    finally show ?thesis .
  next
    case False
    have m: "n mod 10 < 10" by simp
    have "dec_value (digits_of n) = dec_value (digits_of (n div 10) @ [char_of (48 + n mod 10)])"
      using False by (subst digits_of.simps) simp
    also have "\<dots> = 10 * (n div 10) + n mod 10"
      using False 1 by (simp only: dec_value_snoc of_char_digit_char [OF m]) simp
    finally show ?thesis by simp
  qed
qed

lemma Sprintf_d_decimal: "is_decimal_u64 (Sprintf_d w)"
  using unat_lt_64 [of w]
  by (simp add: is_decimal_u64_def Sprintf_d_def digits_of_digits digits_of_not_Nil
        dec_value_digits_of)

lemma dec_value_Sprintf_d: "of_nat (dec_value (Sprintf_d w)) = w"
  by (simp add: Sprintf_d_def dec_value_digits_of)

lemma ParseUint_Sprintf_d: "ParseUint (Sprintf_d w) = Inr w"
  by (simp add: ParseUint_decimal Sprintf_d_decimal dec_value_Sprintf_d)

lemma char_of_of_char_digit: "is_digit c \<Longrightarrow> char_of (48 + (of_char c - 48 :: nat)) = c"
  by (simp add: is_digit_def)

lemma digit_less_10: "is_digit c \<Longrightarrow> (of_char c - 48 :: nat) < 10"
  unfolding is_digit_def by linarith

lemma char_of_48: "char_of (48 :: nat) = CHR ''0''"
proof -
  have "(48 :: nat) = of_char (CHR ''0'')" by simp
  then have "char_of (48 :: nat) = char_of (of_char (CHR ''0'') :: nat)" by (rule arg_cong)
  then show ?thesis by (simp only: char_of_char)
qed

lemma is_digit_nonzero: "is_digit c \<Longrightarrow> c \<noteq> CHR ''0'' \<Longrightarrow> 0 < (of_char c - 48 :: nat)"
proof -
  assume d: "is_digit c" and nz: "c \<noteq> CHR ''0''"
  have "(of_char c :: nat) \<noteq> 48"
  proof
    assume "(of_char c :: nat) = 48"
    then have "char_of (of_char c :: nat) = char_of (48 :: nat)" by simp
    then have "c = CHR ''0''" by (simp only: char_of_char char_of_48)
    with nz show False by simp
  qed
  with d show ?thesis unfolding is_digit_def by linarith
qed

lemma dec_value_pos:
  assumes "list_all is_digit s" "s \<noteq> []" "hd s \<noteq> CHR ''0''"
  shows "0 < dec_value s"
proof -
  from assms obtain c cs where s: "s = c # cs" by (cases s) auto
  with assms have "is_digit c" "c \<noteq> CHR ''0''" by simp_all
  then have "0 < (of_char c - 48 :: nat)" by (rule is_digit_nonzero)
  then have "0 < dec_step 0 c" by (simp add: dec_step_def)
  also have "\<dots> \<le> foldl dec_step (dec_step 0 c) cs" by (rule foldl_dec_step_mono)
  finally show ?thesis using s by (simp add: dec_value_def)
qed

lemma digits_of_dec_value:
  "list_all is_digit s \<Longrightarrow> s \<noteq> [] \<Longrightarrow> no_leading_zero s \<Longrightarrow> digits_of (dec_value s) = s"
proof (induction s rule: rev_induct)
  case Nil
  then show ?case by simp
next
  case (snoc c xs)
  from snoc.prems have c: "is_digit c" and xs: "list_all is_digit xs" by simp_all
  let ?d = "of_char c - 48 :: nat"
  have d10: "?d < 10" using c by (rule digit_less_10)
  show ?case
  proof (cases "xs = []")
    case True
    then have "dec_value (xs @ [c]) = ?d" by (simp add: dec_value_def dec_step_def)
    then show ?thesis using d10 True c
      by (subst digits_of.simps) (simp add: char_of_of_char_digit)
  next
    case False
    then have "hd (xs @ [c]) = hd xs" by simp
    moreover have "xs @ [c] \<noteq> ''0''" using False by (cases xs) auto
    ultimately have hd: "hd xs \<noteq> CHR ''0''" using snoc.prems False
      by (simp add: no_leading_zero_def)
    then have nlz: "no_leading_zero xs" by (simp add: no_leading_zero_def)
    have pos: "0 < dec_value xs" using xs False hd by (rule dec_value_pos)
    have v: "dec_value (xs @ [c]) = 10 * dec_value xs + ?d" by (rule dec_value_snoc)
    have ge: "\<not> dec_value (xs @ [c]) < 10" using pos v by simp
    have dv: "dec_value (xs @ [c]) div 10 = dec_value xs" using v d10 by simp
    have md: "dec_value (xs @ [c]) mod 10 = ?d" using v d10 by simp
    have "digits_of (dec_value (xs @ [c])) = digits_of (dec_value xs) @ [char_of (48 + ?d)]"
      using ge by (subst digits_of.simps) (simp add: dv md)
    also have "\<dots> = xs @ [c]"
      using snoc.IH [OF xs False nlz] c by (simp add: char_of_of_char_digit)
    finally show ?thesis .
  qed
qed

lemma Sprintf_d_canonical:
  assumes "is_decimal_u64 s" "no_leading_zero s"
  shows "Sprintf_d (of_nat (dec_value s)) = s"
proof -
  from assms(1) have "unat (of_nat (dec_value s) :: 64 word) = dec_value s"
    by (simp add: is_decimal_u64_def unat_of_nat_dec)
  then show ?thesis using assms
    by (simp add: Sprintf_d_def is_decimal_u64_def digits_of_dec_value)
qed

lemma Sprintf_d_0: "Sprintf_d 0 = ''0''"
  by (simp add: Sprintf_d_def digits_of.simps char_of_48)

lemma Join_snoc_append:
  "Join (elems @ [a @ b]) sep = Join (elems @ [a]) sep @ b"
proof (induction elems)
  case Nil
  show ?case by simp
next
  case (Cons e elems)
  have ne: "elems @ [x] \<noteq> []" for x :: string by simp
  show ?case using Cons.IH by (simp add: Join_Cons [OF ne])
qed

section \<open>Rendering a configuration, and parsing the rendering\<close>

lemma parse_digits_step:
  assumes dig: "is_digit c"
  shows "parse_digits n (c # cs) =
     (if dec_step (unat n) c < 2 ^ 64 then parse_digits (of_nat (dec_step (unat n) c)) cs
      else Inl ErrRange)"
proof -
  let ?d = "of_char c - 48 :: nat"
  have dv: "digit_val c = Some ?d" using dig by (rule digit_val_digit)
  have d10: "?d < 10" using dig unfolding is_digit_def by linarith
  show ?thesis
  proof (cases "cutoff \<le> n")
    case True
    then have "1844674407370955162 \<le> unat n" by (simp add: word_le_nat_alt unat_cutoff)
    then have "\<not> dec_step (unat n) c < 2 ^ 64" by (simp add: dec_step_def)
    then show ?thesis using True dv d10 by simp
  next
    case False
    then have u10: "unat (n * 10) = unat n * 10" by (rule unat_times_10)
    show ?thesis
    proof (cases "2 ^ 64 \<le> unat (n * 10) + ?d")
      case True
      then have ov: "n * 10 + of_nat ?d < n * 10" using d10 by (simp add: unat_plus_digit)
      from True u10 have "\<not> dec_step (unat n) c < 2 ^ 64" by (simp add: dec_step_def)
      then show ?thesis using False dv d10 ov by (simp add: Let_def)
    next
      case nov: False
      then have nov': "\<not> n * 10 + of_nat ?d < n * 10" using d10 by (simp add: unat_plus_digit)
      from nov u10 have lt: "dec_step (unat n) c < 2 ^ 64" by (simp add: dec_step_def)
      have w: "(of_nat (dec_step (unat n) c) :: 64 word) = n * 10 + of_nat ?d"
        by (simp add: dec_step_def)
      show ?thesis using False dv d10 nov' lt by (simp add: Let_def not_above_max w)
    qed
  qed
qed

lemma parse_digits_append:
  "list_all is_digit xs \<Longrightarrow> foldl dec_step (unat n) xs < 2 ^ 64 \<Longrightarrow>
   parse_digits n (xs @ ys) = parse_digits (of_nat (foldl dec_step (unat n) xs)) ys"
proof (induction xs arbitrary: n)
  case Nil
  show ?case by simp
next
  case (Cons c xs)
  from Cons.prems have dig: "is_digit c" and rest: "list_all is_digit xs" by simp_all
  let ?m = "dec_step (unat n) c"
  have "?m \<le> foldl dec_step ?m xs" by (rule foldl_dec_step_mono)
  with Cons.prems(2) have lt: "?m < 2 ^ 64" by simp
  then have um: "unat (of_nat ?m :: 64 word) = ?m" by (simp add: unat_of_nat)
  have "parse_digits n ((c # xs) @ ys) = parse_digits (of_nat ?m) (xs @ ys)"
    unfolding append_Cons using lt by (subst parse_digits_step [OF dig]) simp
  also have "\<dots> = parse_digits (of_nat (foldl dec_step (unat (of_nat ?m :: 64 word)) xs)) ys"
    using rest Cons.prems(2) by (intro Cons.IH) (simp_all add: um)
  finally show ?case by (simp add: um)
qed

lemma digit_val_eq_sign: "digit_val (CHR ''='') = None"
  by (simp add: digit_val_def lower_def)

lemma ParseUint_decimal_eq:
  assumes "is_decimal_u64 a"
  shows "ParseUint (a @ CHR ''='' # b) = Inl ErrSyntax"
proof -
  from assms have dig: "list_all is_digit a" and lt: "foldl dec_step (unat (0 :: 64 word)) a < 2 ^ 64"
    by (simp_all add: is_decimal_u64_def dec_value_def)
  have "parse_digits 0 (a @ CHR ''='' # b)
          = parse_digits (of_nat (foldl dec_step (unat (0 :: 64 word)) a)) (CHR ''='' # b)"
    using dig lt by (rule parse_digits_append)
  also have "\<dots> = Inl ErrSyntax" by (simp add: digit_val_eq_sign)
  finally show ?thesis by (simp add: ParseUint_def)
qed

lemma flag_update: "l\<lparr>Ranges := x\<rparr> = \<lparr>Ranges = x\<rparr>"
  by (cases l) simp

lemma Set_success_shape:
  assumes "Set l s = (None, l')"
  shows "\<exists>inputRanges lastTreeID.
           l' = \<lparr>Ranges = \<lparr>LogRanges_Ranges = inputRanges @ [\<lparr>TreeID = lastTreeID, TreeLength = 0\<rparr>]\<rparr>\<rparr>"
  using assms
  by (auto simp add: Set_def Let_def flag_update simp del: One_nat_def
        split: sum.splits option.splits if_splits)

lemma Sprintf_range_token:
  "Sprintf_range r = historical_token (Sprintf_d (TreeID r), Sprintf_d (TreeLength r))"
  by (simp add: Sprintf_range_def historical_token_def)

lemma Sprintf_range_no_comma: "CHR '','' \<notin> set (Sprintf_range r)"
  using decimal_no_sep [OF Sprintf_d_decimal [of "TreeID r"]]
        decimal_no_sep [OF Sprintf_d_decimal [of "TreeLength r"]]
  by (simp add: Sprintf_range_def)

lemma historical_shard_Sprintf:
  "historical_shard (Sprintf_d (TreeID r), Sprintf_d (TreeLength r)) = r"
  by (simp add: historical_shard_def dec_value_Sprintf_d)

lemma parse_historical_rendered:
  "parse_historical (map Sprintf_range rs) [] = Inr rs"
proof -
  let ?hist = "map (\<lambda>r. (Sprintf_d (TreeID r), Sprintf_d (TreeLength r))) rs"
  have wf: "list_all (\<lambda>p. is_decimal_u64 (fst p) \<and> is_decimal_u64 (snd p)) ?hist"
    by (simp add: list_all_iff Sprintf_d_decimal)
  have toks: "map historical_token ?hist = map Sprintf_range rs"
    by (simp add: Sprintf_range_token)
  have shs: "map historical_shard ?hist = rs"
    by (simp add: historical_shard_Sprintf comp_def)
  from parse_historical_well_formed [OF wf, of "[]"] show ?thesis
    by (simp only: toks shs append_Nil)
qed

lemma Split_rendered:
  "Split (String \<lparr>Ranges = \<lparr>LogRanges_Ranges = irs @ [\<lparr>TreeID = tid, TreeLength = 0\<rparr>]\<rparr>\<rparr>) (CHR '','')
     = map Sprintf_range irs @ [Sprintf_d tid @ ''=0'']"
proof -
  let ?toks = "map Sprintf_range irs @ [Sprintf_d tid @ ''=0'']"
  let ?l = "\<lparr>Ranges = \<lparr>LogRanges_Ranges = irs @ [\<lparr>TreeID = tid, TreeLength = 0\<rparr>]\<rparr>\<rparr>"
  have s: "String ?l = Join ?toks '',''"
    by (simp add: String_def Sprintf_range_def Sprintf_d_0)
  have nc: "\<forall>tok\<in>set ?toks. CHR '','' \<notin> set tok"
    using decimal_no_sep [OF Sprintf_d_decimal [of tid]] by (auto simp add: Sprintf_range_no_comma)
  show ?thesis
    unfolding s using Split_Join [of ?toks "CHR '',''"] nc by simp
qed

lemma Set_rendered:
  "Set l2 (String \<lparr>Ranges = \<lparr>LogRanges_Ranges = irs @ [\<lparr>TreeID = tid, TreeLength = 0\<rparr>]\<rparr>\<rparr>)
     = (Some (NumError (Sprintf_d tid @ ''=0'') ErrSyntax), empty_flag)"
proof -
  let ?toks = "map Sprintf_range irs @ [Sprintf_d tid @ ''=0'']"
  have pe: "ParseUint_err (Sprintf_d tid @ ''=0'') = Inl (NumError (Sprintf_d tid @ ''=0'') ErrSyntax)"
    using ParseUint_decimal_eq [OF Sprintf_d_decimal [of tid], of "''0''"]
    by (simp add: ParseUint_err_def)
  have lt: "?toks ! length irs = Sprintf_d tid @ ''=0''" by (simp add: nth_append)
  show ?thesis
    unfolding Set_def Split_rendered
    by (simp add: parse_historical_rendered lt pe empty_flag_def)
qed

lemma Sprintf_range_canonical:
  assumes "is_decimal_u64 (fst p)" "is_decimal_u64 (snd p)"
    and "no_leading_zero (fst p)" "no_leading_zero (snd p)"
  shows "Sprintf_range (historical_shard p) = historical_token p"
  using assms
  by (simp add: Sprintf_range_def historical_shard_def historical_token_def Sprintf_d_canonical)

lemma historical_token_halves:
  assumes "CHR ''='' \<in> set tok"
  shows "historical_token (halves tok) = tok"
proof -
  let ?P = "\<lambda>c. c \<noteq> CHR ''=''"
  from assms have ne: "dropWhile ?P tok \<noteq> []" by (simp add: dropWhile_eq_Nil_conv)
  then have "hd (dropWhile ?P tok) = CHR ''=''" using hd_dropWhile [of ?P tok] by simp
  with ne have "dropWhile ?P tok = CHR ''='' # tl (dropWhile ?P tok)"
    by (cases "dropWhile ?P tok") simp_all
  then have "takeWhile ?P tok @ CHR ''='' # tl (dropWhile ?P tok) = takeWhile ?P tok @ dropWhile ?P tok"
    by simp
  then show ?thesis by (simp add: historical_token_def halves_def)
qed

lemma Set_success_description:
  assumes "Set l s = (None, l')"
  shows "\<exists>hist t. s = description hist t \<and> well_formed hist t
           \<and> distinct (map TreeID (shards hist t))"
proof -
  let ?toks = "Split s (CHR '','')"
  let ?hist = "map halves (butlast ?toks)" and ?t = "last ?toks"
  have ne: "?toks \<noteq> []" by (rule Split_not_Nil)
  have nf: "\<not> ((\<exists>tok\<in>set (butlast ?toks). \<not> well_formed_historical tok)
              \<or> \<not> is_decimal_u64 ?t)"
  proof
    assume "(\<exists>tok\<in>set (butlast ?toks). \<not> well_formed_historical tok) \<or> \<not> is_decimal_u64 ?t"
    from Set_ill_formed [OF this, of l] assms show False by auto
  qed
  then have wfh: "\<forall>tok\<in>set (butlast ?toks). well_formed_historical tok"
    and t: "is_decimal_u64 ?t" by blast+
  have "map historical_token ?hist = butlast ?toks"
    using wfh by (simp add: map_idI historical_token_halves well_formed_historical_def)
  then have "description ?hist ?t = Join (butlast ?toks @ [last ?toks]) '',''"
    by (simp add: description_def)
  also have "\<dots> = s" using ne Join_Split [of s "CHR '',''"] by simp
  finally have desc: "s = description ?hist ?t" by simp
  have wf: "well_formed ?hist ?t"
    using wfh t by (simp add: well_formed_def list_all_iff well_formed_historical_def halves_def)
  have "Set l (description ?hist ?t) = (None, l')" using assms desc by simp
  then have "find_duplicate Map.empty (shards ?hist ?t) = None"
    by (simp add: Set_parsed [OF wf] split: option.splits)
  then have "distinct (map TreeID (shards ?hist ?t))" by (simp add: find_duplicate_None_iff)
  with desc wf show ?thesis by blast
qed

lemma Set_no_panic: "fst (Set l s) \<noteq> Some Panic_slice_bounds"
proof -
  have ne: "Split s (CHR '','') \<noteq> []" by (rule Split_not_Nil)
  then have len: "\<not> length (Split s (CHR '','')) < 1" by (cases "Split s (CHR '','')") simp_all
  have pe: "ParseUint_err x \<noteq> Inl Panic_slice_bounds" for x
    by (simp add: ParseUint_err_def split: sum.split)
  have ph: "parse_historical rs acc \<noteq> Inl Panic_slice_bounds" for rs acc
    using parse_historical_Inl_FormatError [of rs acc Panic_slice_bounds] by auto
  show ?thesis using len pe ph
    by (auto simp add: Set_def Let_def simp del: One_nat_def split: sum.split option.split)
qed


text \<open>Unfolding the vocabulary of the specification on concrete descriptions.\<close>

lemmas dec_eval = well_formed_def is_decimal_u64_def is_digit_def dec_value_def dec_step_def
  shards_def historical_shard_def active_shard_def description_def historical_token_def
  well_formed_historical_def


section \<open>Iterating over the keys and over the pairs\<close>

lemma add_keys_success:
  "add_keys sv i uuid w success keys = (w', success', evs) \<Longrightarrow>
   success' = (success \<and> \<not> (\<exists>e\<in>set evs. failure_record e))"
proof (induction keys arbitrary: w success w' success' evs)
  case Nil
  then show ?case by simp
next
  case (Cons key keys)
  obtain r w1 where a: "addToIndex sv w key uuid = (r, w1)" by (cases "addToIndex sv w key uuid")
  show ?case
  proof (cases r)
    case None
    obtain w2 s2 evs2 where k: "add_keys sv i uuid w1 success keys = (w2, s2, evs2)"
      by (cases "add_keys sv i uuid w1 success keys")
    from Cons.IH [OF k] Cons.prems a None k show ?thesis by auto
  next
    case (Some err)
    obtain w2 s2 evs2 where k: "add_keys sv i uuid w1 False keys = (w2, s2, evs2)"
      by (cases "add_keys sv i uuid w1 False keys")
    from Cons.IH [OF k] Cons.prems a Some k show ?thesis by auto
  qed
qed

lemma add_keys_events:
  "add_keys sv i uuid w success keys = (w', success', evs) \<Longrightarrow> \<forall>e\<in>set evs. pair_event e"
proof (induction keys arbitrary: w success w' success' evs)
  case Nil
  then show ?case by simp
next
  case (Cons key keys)
  obtain r w1 where a: "addToIndex sv w key uuid = (r, w1)" by (cases "addToIndex sv w key uuid")
  show ?case
  proof (cases r)
    case None
    obtain w2 s2 evs2 where k: "add_keys sv i uuid w1 success keys = (w2, s2, evs2)"
      by (cases "add_keys sv i uuid w1 success keys")
    from Cons.IH [OF k] Cons.prems a None k show ?thesis by auto
  next
    case (Some err)
    obtain w2 s2 evs2 where k: "add_keys sv i uuid w1 False keys = (w2, s2, evs2)"
      by (cases "add_keys sv i uuid w1 False keys")
    from Cons.IH [OF k] Cons.prems a Some k show ?thesis by auto
  qed
qed

text \<open>One step of the loop over the pairs, for a pair with a text as its body.\<close>

lemma process_pairs_decode_error:
  assumes "unmarshalEntryImpl sv b = Inl err"
  shows "process_pairs sv i w success ((uuid, StringBody b) # rest) =
     (case process_pairs sv i w False rest of
        (r, w2, evs) \<Rightarrow> (r, w2, Printf_error_unmarshalling uuid err # evs))"
  using assms by simp

lemma process_pairs_keys_error:
  assumes "unmarshalEntryImpl sv b = Inr (e, kind, version)" "IndexKeys sv e = Inl err"
  shows "process_pairs sv i w success ((uuid, StringBody b) # rest) =
     (case process_pairs sv i w False rest of
        (r, w2, evs) \<Rightarrow> (r, w2, Printf_error_building_index_keys uuid err # evs))"
  using assms by simp

lemma process_pairs_keys:
  assumes "unmarshalEntryImpl sv b = Inr (e, kind, version)" "IndexKeys sv e = Inr keys"
    "add_keys sv i uuid w success keys = (w1, success1, evs1)"
  shows "process_pairs sv i w success ((uuid, StringBody b) # rest) =
     (case process_pairs sv i w1 success1 rest of (r, w2, evs) \<Rightarrow> (r, w2, evs1 @ evs))"
  using assms by simp

lemma process_pairs_strings:
  "\<exists>success' w' evs.
     process_pairs sv i w success (map string_entry pairs) = (Some success', w', evs)
     \<and> success' = (success \<and> \<not> (\<exists>e\<in>set evs. failure_record e))
     \<and> (\<forall>e\<in>set evs. pair_event e)"
proof (induction pairs arbitrary: w success)
  case Nil
  show ?case by simp
next
  case (Cons p pairs)
  obtain uuid b where p: "p = (uuid, b)" by (cases p)
  have se: "map string_entry (p # pairs) = (uuid, StringBody b) # map string_entry pairs"
    by (simp add: p string_entry_def)
  show ?case
  proof (cases "unmarshalEntryImpl sv b")
    case (Inl err)
    from Cons.IH [of w False] obtain s2 w2 evs2
      where r: "process_pairs sv i w False (map string_entry pairs) = (Some s2, w2, evs2)"
        and s: "s2 = (False \<and> \<not> (\<exists>e\<in>set evs2. failure_record e))"
        and ev: "\<forall>e\<in>set evs2. pair_event e" by blast
    show ?thesis unfolding se process_pairs_decode_error [OF Inl] using r s ev by auto
  next
    case (Inr x)
    obtain e kind version where x: "x = (e, kind, version)" by (cases x)
    note dec = Inr [unfolded x]
    show ?thesis
    proof (cases "IndexKeys sv e")
      case (Inl err)
      from Cons.IH [of w False] obtain s2 w2 evs2
        where r: "process_pairs sv i w False (map string_entry pairs) = (Some s2, w2, evs2)"
          and s: "s2 = (False \<and> \<not> (\<exists>e\<in>set evs2. failure_record e))"
          and ev: "\<forall>e\<in>set evs2. pair_event e" by blast
      show ?thesis unfolding se process_pairs_keys_error [OF dec Inl] using r s ev by auto
    next
      case (Inr keys)
      obtain w1 s1 evs1 where k: "add_keys sv i uuid w success keys = (w1, s1, evs1)"
        by (cases "add_keys sv i uuid w success keys")
      from Cons.IH [of w1 s1] obtain s2 w2 evs2
        where r: "process_pairs sv i w1 s1 (map string_entry pairs) = (Some s2, w2, evs2)"
          and s: "s2 = (s1 \<and> \<not> (\<exists>e\<in>set evs2. failure_record e))"
          and ev: "\<forall>e\<in>set evs2. pair_event e" by blast
      show ?thesis unfolding se process_pairs_keys [OF dec Inr k]
        using r s ev add_keys_success [OF k] add_keys_events [OF k] by auto
    qed
  qed
qed

lemma process_pairs_append:
  "process_pairs sv i w success pre = (Some s1, w1, evs1) \<Longrightarrow>
   process_pairs sv i w success (pre @ post) =
     (case process_pairs sv i w1 s1 post of (r, w2, evs2) \<Rightarrow> (r, w2, evs1 @ evs2))"
proof (induction sv i w success pre arbitrary: s1 w1 evs1 rule: process_pairs.induct)
  case (1 sv i w success)
  then show ?case by (simp split: prod.split)
next
  case (2 sv i w success uuid rest)
  then show ?case by simp
next
  case (3 sv i w success uuid b rest)
  show ?case
  proof (cases "unmarshalEntryImpl sv b")
    case (Inl err)
    obtain r w2 evs where p: "process_pairs sv i w False rest = (r, w2, evs)"
      by (cases "process_pairs sv i w False rest")
    with "3.prems" Inl have r: "r = Some s1" "w2 = w1" "evs1 = Printf_error_unmarshalling uuid err # evs"
      by simp_all
    from "3.IH"(1) [OF Inl p [unfolded r(1,2)]] Inl show ?thesis
      by (simp add: r split: prod.split)
  next
    case (Inr x)
    obtain e kind version where x: "x = (e, kind, version)" by (cases x)
    note dec = Inr [unfolded x]
    show ?thesis
    proof (cases "IndexKeys sv e")
      case (Inl err)
      obtain r w2 evs where p: "process_pairs sv i w False rest = (r, w2, evs)"
        by (cases "process_pairs sv i w False rest")
      with "3.prems" dec Inl have r: "r = Some s1" "w2 = w1"
          "evs1 = Printf_error_building_index_keys uuid err # evs"
        by simp_all
      from "3.IH"(2) [OF dec refl refl Inl p [unfolded r(1,2)]] dec Inl show ?thesis
        by (simp add: r split: prod.split)
    next
      case (Inr keys)
      obtain wk sk evsk where k: "add_keys sv i uuid w success keys = (wk, sk, evsk)"
        by (cases "add_keys sv i uuid w success keys")
      obtain r w2 evs where p: "process_pairs sv i wk sk rest = (r, w2, evs)"
        by (cases "process_pairs sv i wk sk rest")
      with "3.prems" dec Inr k have r: "r = Some s1" "w2 = w1" "evs1 = evsk @ evs"
        by simp_all
      from "3.IH"(3) [OF dec refl refl Inr k [symmetric] refl p [unfolded r(1,2)]] dec Inr k
      show ?thesis by (simp add: r split: prod.split)
    qed
  qed
qed

lemma add_keys_every_key:
  "add_keys sv i uuid w success keys = (w', success', evs) \<Longrightarrow>
   filter is_LPUSH evs = map (\<lambda>key. Call_LPUSH key uuid) keys
   \<and> filter is_Uploaded evs = map (\<lambda>key. Printf_Uploaded uuid i key) keys"
proof (induction keys arbitrary: w success w' success' evs)
  case Nil
  then show ?case by simp
next
  case (Cons key keys)
  obtain r w1 where a: "addToIndex sv w key uuid = (r, w1)" by (cases "addToIndex sv w key uuid")
  show ?case
  proof (cases r)
    case None
    obtain w2 s2 evs2 where k: "add_keys sv i uuid w1 success keys = (w2, s2, evs2)"
      by (cases "add_keys sv i uuid w1 success keys")
    from Cons.IH [OF k] Cons.prems a None k show ?thesis by auto
  next
    case (Some err)
    obtain w2 s2 evs2 where k: "add_keys sv i uuid w1 False keys = (w2, s2, evs2)"
      by (cases "add_keys sv i uuid w1 False keys")
    from Cons.IH [OF k] Cons.prems a Some k show ?thesis by auto
  qed
qed


section \<open>One index, and the run over the indices\<close>

lemma pair_event_not_index: "pair_event e \<Longrightarrow> \<not> index_event j e"
  by (cases e) simp_all

lemma process_pairs_events:
  "process_pairs sv i w success pairs = (r, w', evs) \<Longrightarrow> \<forall>e\<in>set evs. pair_event e"
proof (induction sv i w success pairs arbitrary: r w' evs rule: process_pairs.induct)
  case (1 sv i w success)
  then show ?case by simp
next
  case (2 sv i w success uuid rest)
  then show ?case by simp
next
  case (3 sv i w success uuid b rest)
  show ?case
  proof (cases "unmarshalEntryImpl sv b")
    case (Inl err)
    obtain r2 w2 evs2 where p: "process_pairs sv i w False rest = (r2, w2, evs2)"
      by (cases "process_pairs sv i w False rest")
    from "3.IH"(1) [OF Inl p] "3.prems" Inl p show ?thesis by auto
  next
    case (Inr x)
    obtain e kind version where x: "x = (e, kind, version)" by (cases x)
    note dec = Inr [unfolded x]
    show ?thesis
    proof (cases "IndexKeys sv e")
      case (Inl err)
      obtain r2 w2 evs2 where p: "process_pairs sv i w False rest = (r2, w2, evs2)"
        by (cases "process_pairs sv i w False rest")
      from "3.IH"(2) [OF dec refl refl Inl p] "3.prems" dec Inl p show ?thesis by auto
    next
      case (Inr keys)
      obtain wk sk evsk where k: "add_keys sv i uuid w success keys = (wk, sk, evsk)"
        by (cases "add_keys sv i uuid w success keys")
      obtain r2 w2 evs2 where p: "process_pairs sv i wk sk rest = (r2, w2, evs2)"
        by (cases "process_pairs sv i wk sk rest")
      from "3.IH"(3) [OF dec refl refl Inr k [symmetric] refl p] "3.prems" dec Inr k p
        add_keys_events [OF k]
      show ?thesis by auto
    qed
  qed
qed

lemma process_index_strings:
  assumes "GetLogEntryByIndex sv w i = (Inr (map string_entry pairs), w1)"
  shows "\<exists>w2 evs.
     process_pairs sv i w1 True (map string_entry pairs)
       = (Some (\<not> (\<exists>e\<in>set evs. failure_record e)), w2, evs)
     \<and> process_index sv w i
       = (Next, w2, Call_GetLogEntryByIndex i # evs
                      @ [outcome (\<not> (\<exists>e\<in>set evs. failure_record e)) i])"
proof -
  from process_pairs_strings [of sv i w1 True pairs] obtain s2 w2 evs
    where p: "process_pairs sv i w1 True (map string_entry pairs) = (Some s2, w2, evs)"
      and s: "s2 = (True \<and> \<not> (\<exists>e\<in>set evs. failure_record e))" by blast
  from s have s': "s2 = (\<not> (\<exists>e\<in>set evs. failure_record e))" by simp
  have "process_index sv w i = (Next, w2, Call_GetLogEntryByIndex i # evs @ [outcome s2 i])"
    using assms p by (simp add: process_index_def outcome_def)
  with p show ?thesis unfolding s' by blast
qed

lemma process_index_Fatal_iff:
  "(process_index sv w i = (Fatal, w', evs))
     = (\<exists>err. GetLogEntryByIndex sv w i = (Inl err, w')
              \<and> evs = [Call_GetLogEntryByIndex i, Fatalf_retrieving err])"
proof (cases "GetLogEntryByIndex sv w i")
  case (Pair res w1)
  show ?thesis
  proof (cases res)
    case (Inl err)
    with Pair show ?thesis by (auto simp add: process_index_def)
  next
    case (Inr payload)
    obtain r w2 evs2 where p: "process_pairs sv i w1 True payload = (r, w2, evs2)"
      by (cases "process_pairs sv i w1 True payload")
    with Pair Inr show ?thesis by (cases r) (simp_all add: process_index_def)
  qed
qed

lemma outcome_index_event: "index_event j (outcome s i) = (i = j)"
  by (simp add: outcome_def)

lemma process_index_events:
  assumes "process_index sv w i = (r, w', evs)"
  shows "\<forall>e\<in>set evs. \<forall>j. index_event j e \<longrightarrow> j = i"
    and "r = Next \<Longrightarrow> \<exists>s. outcome s i \<in> set evs"
    and "r \<noteq> Next \<Longrightarrow> \<forall>s j. outcome s j \<notin> set evs"
proof -
  obtain res w1 where g: "GetLogEntryByIndex sv w i = (res, w1)"
    by (cases "GetLogEntryByIndex sv w i")
  have "(\<forall>e\<in>set evs. \<forall>j. index_event j e \<longrightarrow> j = i)
        \<and> (r = Next \<longrightarrow> (\<exists>s. outcome s i \<in> set evs))
        \<and> (r \<noteq> Next \<longrightarrow> (\<forall>s j. outcome s j \<notin> set evs))"
  proof (cases res)
    case (Inl err)
    with g assms show ?thesis by (auto simp add: process_index_def outcome_def)
  next
    case (Inr payload)
    obtain r2 w2 evs2 where p: "process_pairs sv i w1 True payload = (r2, w2, evs2)"
      by (cases "process_pairs sv i w1 True payload")
    from process_pairs_events [OF p] have ni: "\<forall>e\<in>set evs2. \<forall>j. \<not> index_event j e"
      by (simp add: pair_event_not_index)
    then have no: "\<forall>s j. outcome s j \<notin> set evs2"
      using outcome_index_event by blast
    show ?thesis
    proof (cases r2)
      case None
      with g Inr p assms have "r = Panic" "evs = Call_GetLogEntryByIndex i # evs2"
        by (simp_all add: process_index_def)
      with ni no show ?thesis by (auto simp add: outcome_def)
    next
      case (Some s)
      with g Inr p assms have "r = Next"
        "evs = Call_GetLogEntryByIndex i # evs2 @ [outcome s i]"
        by (simp_all add: process_index_def outcome_def)
      with ni show ?thesis by (auto simp add: outcome_index_event)
    qed
  qed
  then show "\<forall>e\<in>set evs. \<forall>j. index_event j e \<longrightarrow> j = i"
    and "r = Next \<Longrightarrow> \<exists>s. outcome s i \<in> set evs"
    and "r \<noteq> Next \<Longrightarrow> \<forall>s j. outcome s j \<notin> set evs" by blast+
qed

lemma run_done: "\<not> i \<le> endIndex \<Longrightarrow> run sv w tr i endIndex = Some (Returned, w, tr)"
  by (subst run.simps) simp

lemma run_Next:
  "i \<le> endIndex \<Longrightarrow> process_index sv w i = (Next, w1, evs) \<Longrightarrow>
   run sv w tr i endIndex = run sv w1 (tr @ evs) (incr i) endIndex"
  by (subst run.simps) simp

lemma run_Fatal:
  "i \<le> endIndex \<Longrightarrow> process_index sv w i = (Fatal, w1, evs) \<Longrightarrow>
   run sv w tr i endIndex = Some (Exited_Fatalf, w1, tr @ evs)"
  by (subst run.simps) simp

lemma run_Panic:
  "i \<le> endIndex \<Longrightarrow> process_index sv w i = (Panic, w1, evs) \<Longrightarrow>
   run sv w tr i endIndex = Some (Panicked, w1, tr @ evs)"
  by (subst run.simps) simp

lemma incr_below: "i < maxInt \<Longrightarrow> incr i = i + 1"
  by (simp add: incr_def)

lemma run_events:
  "b < maxInt \<Longrightarrow> n = nat (b + 1 - a) \<Longrightarrow> run sv w tr a b = Some (x, w', tr') \<Longrightarrow>
   \<exists>evs. tr' = tr @ evs
     \<and> (\<forall>e\<in>set evs. \<forall>j. index_event j e \<longrightarrow> a \<le> j \<and> j \<le> b)
     \<and> (x = Returned \<longrightarrow> (\<forall>j. a \<le> j \<and> j \<le> b \<longrightarrow> (\<exists>s. outcome s j \<in> set evs)))"
proof (induction n arbitrary: a w tr)
  case 0
  then have "\<not> a \<le> b" by simp
  with 0 show ?case by (simp add: run_done)
next
  case (Suc n)
  then have ab: "a \<le> b" by simp
  with Suc.prems have inc: "incr a = a + 1" by (simp add: incr_below)
  obtain r w1 evs1 where p: "process_index sv w a = (r, w1, evs1)"
    by (cases "process_index sv w a") 
  note ev = process_index_events [OF p]
  show ?case
  proof (cases r)
    case Next
    from Suc.prems(3) have rest: "run sv w1 (tr @ evs1) (a + 1) b = Some (x, w', tr')"
      using run_Next [OF ab p [unfolded Next]] inc by simp
    have n: "n = nat (b + 1 - (a + 1))" using Suc.prems(2) by simp
    from Suc.IH [OF Suc.prems(1) n rest] obtain evs2
      where t: "tr' = (tr @ evs1) @ evs2"
        and r2: "\<forall>e\<in>set evs2. \<forall>j. index_event j e \<longrightarrow> a + 1 \<le> j \<and> j \<le> b"
        and o2: "x = Returned \<longrightarrow> (\<forall>j. a + 1 \<le> j \<and> j \<le> b \<longrightarrow> (\<exists>s. outcome s j \<in> set evs2))"
      by blast
    from ev(2) [OF Next] obtain s where oa: "outcome s a \<in> set evs1" by blast
    have "\<forall>e\<in>set (evs1 @ evs2). \<forall>j. index_event j e \<longrightarrow> a \<le> j \<and> j \<le> b"
      using ev(1) r2 ab by fastforce
    moreover have "x = Returned \<longrightarrow> (\<forall>j. a \<le> j \<and> j \<le> b \<longrightarrow> (\<exists>s. outcome s j \<in> set (evs1 @ evs2)))"
    proof (intro impI allI)
      fix j assume x: "x = Returned" and j: "a \<le> j \<and> j \<le> b"
      show "\<exists>s. outcome s j \<in> set (evs1 @ evs2)"
      proof (cases "j = a")
        case True
        with oa show ?thesis by auto
      next
        case False
        with j have "a + 1 \<le> j \<and> j \<le> b" by simp
        with o2 x obtain s' where "outcome s' j \<in> set evs2" by blast
        then show ?thesis by auto
      qed
    qed
    ultimately show ?thesis using t by auto
  next
    case Fatal
    from Suc.prems(3) run_Fatal [OF ab p [unfolded Fatal], of tr]
    have "x = Exited_Fatalf" "tr' = tr @ evs1" by simp_all
    with ev(1) ab show ?thesis by auto
  next
    case Panic
    from Suc.prems(3) run_Panic [OF ab p [unfolded Panic], of tr]
    have "x = Panicked" "tr' = tr @ evs1" by simp_all
    with ev(1) ab show ?thesis by auto
  qed
qed

lemma run_fatal_at:
  "n = nat (i - a) \<Longrightarrow> a \<le> i \<Longrightarrow> i \<le> endIndex \<Longrightarrow> endIndex \<le> maxInt \<Longrightarrow>
   run sv w tr a (i - 1) = Some (Returned, w1, tr1) \<Longrightarrow>
   GetLogEntryByIndex sv w1 i = (Inl err, w2) \<Longrightarrow>
   run sv w tr a endIndex
     = Some (Exited_Fatalf, w2, tr1 @ [Call_GetLogEntryByIndex i, Fatalf_retrieving err])"
proof (induction n arbitrary: a w tr)
  case 0
  then have ai: "a = i" by simp
  with 0 have "w1 = w" "tr1 = tr" by (simp_all add: run_done)
  moreover have "process_index sv w1 i
      = (Fatal, w2, [Call_GetLogEntryByIndex i, Fatalf_retrieving err])"
    using 0 by (simp add: process_index_Fatal_iff)
  ultimately show ?case using run_Fatal [of i endIndex sv w1 w2 _ tr] 0 ai by simp
next
  case (Suc n)
  then have lt: "a < i" by simp
  then have ab: "a \<le> i - 1" and ae: "a \<le> endIndex" using Suc.prems by simp_all
  from lt Suc.prems have inc: "incr a = a + 1" by (simp add: incr_below)
  obtain r w' evs where p: "process_index sv w a = (r, w', evs)"
    by (cases "process_index sv w a")
  show ?case
  proof (cases r)
    case Next
    from Suc.prems(5) have rest: "run sv w' (tr @ evs) (a + 1) (i - 1) = Some (Returned, w1, tr1)"
      using run_Next [OF ab p [unfolded Next]] inc by simp
    have n: "n = nat (i - (a + 1))" using Suc.prems(1) by simp
    have "run sv w' (tr @ evs) (a + 1) endIndex
            = Some (Exited_Fatalf, w2, tr1 @ [Call_GetLogEntryByIndex i, Fatalf_retrieving err])"
      using n lt Suc.prems(3,4) rest Suc.prems(6) by (intro Suc.IH) simp_all
    then show ?thesis using run_Next [OF ae p [unfolded Next]] inc by simp
  next
    case Fatal
    from Suc.prems(5) run_Fatal [OF ab p [unfolded Fatal], of tr] show ?thesis by simp
  next
    case Panic
    from Suc.prems(5) run_Panic [OF ab p [unfolded Panic], of tr] show ?thesis by simp
  qed
qed

lemma example_maxInt: "(5 :: int) \<le> maxInt"
  by (simp add: maxInt_def)


section \<open>The shard-range flag: the claims\<close>

subsection \<open>C1: a well-formed description parses to its shards\<close>

text \<open>
  Claim C1. For every description of \<open>n \<ge> 1\<close> comma-separated tokens whose first \<open>n - 1\<close>
  tokens have the form \<^verbatim>\<open>a=b\<close> with \<^verbatim>\<open>a\<close> and \<^verbatim>\<open>b\<close> decimal unsigned 64-bit integers, whose
  last token is a bare decimal unsigned 64-bit integer, and whose tree ids are pairwise
  distinct, \<open>Set\<close> returns no error and stores exactly \<open>n\<close> shards in the order of the input:
  the first \<open>n - 1\<close> with the tree id and the length given, the last with the tree id
  given and no length. The description is built from the texts \<open>hist\<close> and \<open>t\<close> of its
  numbers; whatever the receiver held before is replaced.
\<close>

theorem Set_well_formed:
  assumes "well_formed hist t" and "distinct (map TreeID (shards hist t))"
  shows "Set l (description hist t) = (None, \<lparr>Ranges = \<lparr>LogRanges_Ranges = shards hist t\<rparr>\<rparr>)
         \<and> length (shards hist t) = length hist + 1"
proof -
  have "find_duplicate Map.empty (shards hist t) = None"
    using assms(2) by (simp add: find_duplicate_None_iff)
  then show ?thesis by (simp add: Set_parsed [OF assms(1)] shards_def)
qed

theorem Set_well_formed_witness:
  "well_formed [(''1'', ''100''), (''2'', ''50'')] ''3''
   \<and> distinct (map TreeID (shards [(''1'', ''100''), (''2'', ''50'')] ''3''))
   \<and> Set empty_flag ''1=100,2=50,3'' =
       (None, \<lparr>Ranges = \<lparr>LogRanges_Ranges =
          [\<lparr>TreeID = 1, TreeLength = 100\<rparr>, \<lparr>TreeID = 2, TreeLength = 50\<rparr>,
           \<lparr>TreeID = 3, TreeLength = 0\<rparr>]\<rparr>\<rparr>)"
proof -
  let ?hist = "[(''1'', ''100''), (''2'', ''50'')]"
  have wf: "well_formed ?hist ''3''" by (simp add: dec_eval)
  have d: "distinct (map TreeID (shards ?hist ''3''))" by (simp add: dec_eval)
  have desc: "description ?hist ''3'' = ''1=100,2=50,3''" by (simp add: dec_eval)
  have sh: "shards ?hist ''3'' =
    [\<lparr>TreeID = 1, TreeLength = 100\<rparr>, \<lparr>TreeID = 2, TreeLength = 50\<rparr>, \<lparr>TreeID = 3, TreeLength = 0\<rparr>]"
    by (simp add: dec_eval)
  from Set_well_formed [OF wf d, of empty_flag] wf d show ?thesis
    by (simp only: desc sh)
qed


subsection \<open>C5: a repeated tree id\<close>

text \<open>
  Claim C5. Whenever the parsed sequence of shards contains two shards with the same tree
  id, \<open>Set\<close> fails with the duplicate error naming the tree id of the first collision in
  the order of the sequence (the first shard whose id occurs among the shards before it),
  and the receiver holds no configuration afterwards.
\<close>

theorem Set_duplicate:
  assumes "well_formed hist t" and "\<not> distinct (map TreeID (shards hist t))"
  shows "\<exists>pre x post. map TreeID (shards hist t) = pre @ x # post \<and> distinct pre \<and> x \<in> set pre
           \<and> Set l (description hist t) = (Some (DuplicateShardError x), empty_flag)"
proof -
  from first_collision_exists [OF assms(2)] obtain pre x post
    where d: "map TreeID (shards hist t) = pre @ x # post" "distinct pre" "x \<in> set pre"
    by blast
  then have "find_duplicate Map.empty (shards hist t) = Some x"
    by (intro find_duplicate_first [of _ pre x post]) simp_all
  then have "Set l (description hist t) = (Some (DuplicateShardError x), empty_flag)"
    by (simp add: Set_parsed [OF assms(1)] DuplicateShardError_def)
  with d show ?thesis by blast
qed

theorem Set_duplicate_witness:
  "well_formed [(''1'', ''100''), (''1'', ''50'')] ''2''
   \<and> \<not> distinct (map TreeID (shards [(''1'', ''100''), (''1'', ''50'')] ''2''))
   \<and> Set empty_flag ''1=100,1=50,2'' = (Some (DuplicateShardError 1), empty_flag)"
proof -
  let ?hist = "[(''1'', ''100''), (''1'', ''50'')]"
  have wf: "well_formed ?hist ''2''" by (simp add: dec_eval)
  have nd: "\<not> distinct (map TreeID (shards ?hist ''2''))" by (simp add: dec_eval)
  have desc: "description ?hist ''2'' = ''1=100,1=50,2''" by (simp add: dec_eval)
  have ids: "map TreeID (shards ?hist ''2'') = [1, 1, 2]" by (simp add: dec_eval)
  from Set_duplicate [OF wf nd, of empty_flag] obtain pre x post
    where dec: "[1, 1, 2] = pre @ x # post" and dp: "distinct pre" and x: "x \<in> set pre"
      and res: "Set empty_flag ''1=100,1=50,2'' = (Some (DuplicateShardError x), empty_flag)"
    unfolding desc ids by blast
  from x obtain y pre' where pre: "pre = y # pre'" by (cases pre) auto
  with dec have y: "y = 1" by simp
  have "x = (1 :: 64 word)"
  proof (cases pre')
    case Nil
    with dec pre show ?thesis by simp
  next
    case (Cons z zs)
    with dec pre have "z = 1" by simp
    with dp pre y Cons show ?thesis by simp
  qed
  with res wf nd show ?thesis by simp
qed


subsection \<open>C8: malformed tokens\<close>

text \<open>
  Claim C8. Parsing fails with a format error whenever a token other than the last lacks
  an \<^verbatim>\<open>=\<close> or has a half that is not a decimal unsigned 64-bit integer, or the last token
  is not a decimal unsigned 64-bit integer. The tokens of an input are what splitting it
  on commas gives. The error is never the duplicate error: the scan for duplicates is not
  reached.
\<close>

theorem Set_FormatError:
  assumes "(\<exists>tok\<in>set (butlast (Split s (CHR '',''))). \<not> well_formed_historical tok)
           \<or> \<not> is_decimal_u64 (last (Split s (CHR '','')))"
  shows "\<exists>e. Set l s = (Some e, empty_flag) \<and> FormatError e
           \<and> (\<forall>d. e \<noteq> DuplicateShardError d)"
proof -
  from Set_ill_formed [OF assms] obtain e
    where s: "Set l s = (Some e, empty_flag)" and f: "FormatError e" by blast
  from f have "\<forall>d. e \<noteq> DuplicateShardError d"
    by (cases e) (simp_all add: DuplicateShardError_def)
  with s f show ?thesis by blast
qed

theorem Set_FormatError_witness:
  "(\<exists>tok\<in>set (butlast (Split ''1,2=50'' (CHR '',''))). \<not> well_formed_historical tok)
   \<and> (\<exists>e. Set empty_flag ''1,2=50'' = (Some e, empty_flag) \<and> FormatError e)
   \<and> (\<exists>tok\<in>set (butlast (Split ''abc=100,2'' (CHR '',''))). \<not> well_formed_historical tok)
   \<and> (\<exists>e. Set empty_flag ''abc=100,2'' = (Some e, empty_flag) \<and> FormatError e)"
proof -
  have s1: "Split ''1,2=50'' (CHR '','') = [''1'', ''2=50'']" by code_simp
  have b1: "\<not> well_formed_historical ''1''" by (simp add: dec_eval)
  have h1: "\<exists>tok\<in>set (butlast (Split ''1,2=50'' (CHR '',''))). \<not> well_formed_historical tok"
    using b1 by (simp add: s1)
  have s2: "Split ''abc=100,2'' (CHR '','') = [''abc=100'', ''2'']" by code_simp
  have b2: "\<not> well_formed_historical ''abc=100''" by (simp add: dec_eval)
  have h2: "\<exists>tok\<in>set (butlast (Split ''abc=100,2'' (CHR '',''))). \<not> well_formed_historical tok"
    using b2 by (simp add: s2)
  from h1 have a1: "(\<exists>tok\<in>set (butlast (Split ''1,2=50'' (CHR '',''))). \<not> well_formed_historical tok)
           \<or> \<not> is_decimal_u64 (last (Split ''1,2=50'' (CHR '','')))" ..
  from h2 have a2: "(\<exists>tok\<in>set (butlast (Split ''abc=100,2'' (CHR '',''))). \<not> well_formed_historical tok)
           \<or> \<not> is_decimal_u64 (last (Split ''abc=100,2'' (CHR '','')))" ..
  from Set_FormatError [OF a1, of empty_flag] Set_FormatError [OF a2, of empty_flag] h1 h2
  show ?thesis by blast
qed

subsection \<open>C9: a failed Set resets the receiver\<close>

text \<open>
  Claim C9. \<open>Set\<close> is not atomic on error: for every input on which it returns an error,
  the receiver holds the empty configuration afterwards, whatever it held before the
  call. The error is a returned one: the slice of the tokens never panics.
\<close>

theorem Set_error_resets:
  assumes "fst (Set l s) \<noteq> None"
  shows "snd (Set l s) = empty_flag \<and> fst (Set l s) \<noteq> Some Panic_slice_bounds"
proof -
  have "snd (Set l s) = empty_flag" using assms
    by (auto simp add: Set_def Let_def empty_flag_def simp del: One_nat_def
          split: sum.splits option.splits if_splits)
  then show ?thesis by (simp add: Set_no_panic)
qed

theorem Set_error_resets_witness:
  "Set empty_flag ''1=100,2'' = (None, \<lparr>Ranges = \<lparr>LogRanges_Ranges =
       [\<lparr>TreeID = 1, TreeLength = 100\<rparr>, \<lparr>TreeID = 2, TreeLength = 0\<rparr>]\<rparr>\<rparr>)
   \<and> fst (Set \<lparr>Ranges = \<lparr>LogRanges_Ranges =
       [\<lparr>TreeID = 1, TreeLength = 100\<rparr>, \<lparr>TreeID = 2, TreeLength = 0\<rparr>]\<rparr>\<rparr> ''1=100,x'') \<noteq> None
   \<and> snd (Set \<lparr>Ranges = \<lparr>LogRanges_Ranges =
       [\<lparr>TreeID = 1, TreeLength = 100\<rparr>, \<lparr>TreeID = 2, TreeLength = 0\<rparr>]\<rparr>\<rparr> ''1=100,x'') = empty_flag"
proof -
  let ?l = "\<lparr>Ranges = \<lparr>LogRanges_Ranges =
       [\<lparr>TreeID = 1, TreeLength = 100\<rparr>, \<lparr>TreeID = 2, TreeLength = 0\<rparr>]\<rparr>\<rparr>"
  have ok: "Set empty_flag ''1=100,2'' = (None, ?l)" by code_simp
  have err: "fst (Set ?l ''1=100,x'') \<noteq> None" by code_simp
  from Set_error_resets [OF err] ok err show ?thesis by simp
qed

subsection \<open>C10: the rendering of a parsed configuration does not parse\<close>

text \<open>
  Claim C10. Every configuration stored by a successful \<open>Set\<close> has at least one range,
  the string \<open>String\<close> makes of it ends in a token of the form \<^verbatim>\<open>treeID=0\<close>, and \<open>Set\<close> on
  that string returns an error: the last token has to be a bare integer, and the \<^verbatim>\<open>=\<close>
  in it is a syntax error of \<open>ParseUint\<close>.
\<close>

theorem Set_String_fails:
  assumes "Set l s = (None, l')"
  shows "LogRanges_Ranges (Ranges l') \<noteq> []
     \<and> last (Split (String l') (CHR '','')) =
         Sprintf_d (TreeID (last (LogRanges_Ranges (Ranges l')))) @ ''=0''
     \<and> Set l2 (String l') =
         (Some (NumError (last (Split (String l') (CHR '',''))) ErrSyntax), empty_flag)"
proof -
  from Set_success_shape [OF assms] obtain irs tid
    where l': "l' = \<lparr>Ranges = \<lparr>LogRanges_Ranges = irs @ [\<lparr>TreeID = tid, TreeLength = 0\<rparr>]\<rparr>\<rparr>"
    by blast
  have sp: "Split (String l') (CHR '','') = map Sprintf_range irs @ [Sprintf_d tid @ ''=0'']"
    unfolding l' by (rule Split_rendered)
  have st: "Set l2 (String l') = (Some (NumError (Sprintf_d tid @ ''=0'') ErrSyntax), empty_flag)"
    unfolding l' by (rule Set_rendered)
  show ?thesis unfolding sp st by (simp add: l')
qed

theorem Set_String_fails_witness:
  "Set empty_flag ''1=100,2'' = (None, \<lparr>Ranges = \<lparr>LogRanges_Ranges =
       [\<lparr>TreeID = 1, TreeLength = 100\<rparr>, \<lparr>TreeID = 2, TreeLength = 0\<rparr>]\<rparr>\<rparr>)
   \<and> String \<lparr>Ranges = \<lparr>LogRanges_Ranges =
       [\<lparr>TreeID = 1, TreeLength = 100\<rparr>, \<lparr>TreeID = 2, TreeLength = 0\<rparr>]\<rparr>\<rparr> = ''1=100,2=0''
   \<and> Set empty_flag ''1=100,2=0'' = (Some (NumError ''2=0'' ErrSyntax), empty_flag)"
proof -
  let ?l = "\<lparr>Ranges = \<lparr>LogRanges_Ranges =
       [\<lparr>TreeID = 1, TreeLength = 100\<rparr>, \<lparr>TreeID = 2, TreeLength = 0\<rparr>]\<rparr>\<rparr>"
  have ok: "Set empty_flag ''1=100,2'' = (None, ?l)" by code_simp
  have str: "String ?l = ''1=100,2=0''" by code_simp
  have la: "last (Split ''1=100,2=0'' (CHR '','')) = ''2=0''" by code_simp
  from Set_String_fails [OF ok, of empty_flag]
  have "Set empty_flag (String ?l) =
          (Some (NumError (last (Split (String ?l) (CHR '',''))) ErrSyntax), empty_flag)"
    by blast
  then have "Set empty_flag ''1=100,2=0'' = (Some (NumError ''2=0'' ErrSyntax), empty_flag)"
    by (simp only: str la)
  with ok str show ?thesis by simp
qed

subsection \<open>C6: what String renders\<close>

text \<open>
  Claim C6, amended. For every successfully parsed description, \<open>String\<close> renders each
  shard as \<^verbatim>\<open>treeID=length\<close>, joined with commas in the original order, each number in
  the decimal form without leading zeros that \<^verbatim>\<open>%d\<close> prints. So every historical token
  whose two numbers are written without leading zeros is reproduced exactly, and the
  active shard is rendered as its tree id followed by \<^verbatim>\<open>=0\<close>.
\<close>

theorem String_Set_renders:
  assumes "well_formed hist t" and "distinct (map TreeID (shards hist t))"
  shows "String (snd (Set l (description hist t))) = Join (map Sprintf_range (shards hist t)) '',''
     \<and> (\<forall>i<length hist.
           no_leading_zero (fst (hist ! i)) \<and> no_leading_zero (snd (hist ! i)) \<longrightarrow>
           map Sprintf_range (shards hist t) ! i = historical_token (hist ! i))
     \<and> map Sprintf_range (shards hist t) ! length hist = Sprintf_d (of_nat (dec_value t)) @ ''=0''"
proof -
  have "find_duplicate Map.empty (shards hist t) = None"
    using assms(2) by (simp add: find_duplicate_None_iff)
  then have s: "String (snd (Set l (description hist t)))
                  = Join (map Sprintf_range (shards hist t)) '',''"
    by (simp add: Set_parsed [OF assms(1)] String_def)
  have h: "map Sprintf_range (shards hist t) ! i = historical_token (hist ! i)"
    if i: "i < length hist" and c: "no_leading_zero (fst (hist ! i)) \<and> no_leading_zero (snd (hist ! i))"
    for i
  proof -
    from assms(1) i have "is_decimal_u64 (fst (hist ! i))" "is_decimal_u64 (snd (hist ! i))"
      by (simp_all add: well_formed_def list_all_length)
    with c have "Sprintf_range (historical_shard (hist ! i)) = historical_token (hist ! i)"
      by (simp add: Sprintf_range_canonical)
    then show ?thesis using i by (simp add: shards_def nth_append)
  qed
  have a: "map Sprintf_range (shards hist t) ! length hist = Sprintf_d (of_nat (dec_value t)) @ ''=0''"
    by (simp add: shards_def nth_append active_shard_def Sprintf_range_def Sprintf_d_0)
  from s h a show ?thesis by blast
qed

theorem String_Set_renders_witness:
  "well_formed [(''1'', ''100'')] ''2''
   \<and> distinct (map TreeID (shards [(''1'', ''100'')] ''2''))
   \<and> no_leading_zero ''1'' \<and> no_leading_zero ''100''
   \<and> String (snd (Set empty_flag ''1=100,2'')) = ''1=100,2=0''
   \<and> map Sprintf_range (shards [(''1'', ''100'')] ''2'') ! 0 = ''1=100''"
proof -
  let ?hist = "[(''1'', ''100'')]"
  have wf: "well_formed ?hist ''2''" by (simp add: dec_eval)
  have d: "distinct (map TreeID (shards ?hist ''2''))" by (simp add: dec_eval)
  have desc: "description ?hist ''2'' = ''1=100,2''" by (simp add: dec_eval)
  have nz: "no_leading_zero ''1'' \<and> no_leading_zero ''100''" by (simp add: no_leading_zero_def)
  have j: "Join (map Sprintf_range (shards ?hist ''2'')) '','' = ''1=100,2=0''" by code_simp
  from String_Set_renders [OF wf d, of empty_flag]
  have 1: "String (snd (Set empty_flag ''1=100,2'')) = ''1=100,2=0''"
    and 2: "\<forall>i<length ?hist.
           no_leading_zero (fst (?hist ! i)) \<and> no_leading_zero (snd (?hist ! i)) \<longrightarrow>
           map Sprintf_range (shards ?hist ''2'') ! i = historical_token (?hist ! i)"
    unfolding desc j by blast+
  from 2 nz have "map Sprintf_range (shards ?hist ''2'') ! 0 = historical_token (''1'', ''100'')"
    by simp
  then have 3: "map Sprintf_range (shards ?hist ''2'') ! 0 = ''1=100''"
    by (simp add: historical_token_def)
  from wf d nz 1 3 show ?thesis by blast
qed


text \<open>
  The claim as first stated has every historical token of the input reproduced exactly.
  A number with a leading zero is accepted by \<open>ParseUint\<close> and printed without it:
  the token \<^verbatim>\<open>01=100\<close> comes back as \<^verbatim>\<open>1=100\<close>.
\<close>

theorem String_leading_zero_counterexample:
  "Set empty_flag ''01=100,2'' = (None, \<lparr>Ranges = \<lparr>LogRanges_Ranges =
       [\<lparr>TreeID = 1, TreeLength = 100\<rparr>, \<lparr>TreeID = 2, TreeLength = 0\<rparr>]\<rparr>\<rparr>)
   \<and> String \<lparr>Ranges = \<lparr>LogRanges_Ranges =
       [\<lparr>TreeID = 1, TreeLength = 100\<rparr>, \<lparr>TreeID = 2, TreeLength = 0\<rparr>]\<rparr>\<rparr> = ''1=100,2=0''
   \<and> hd (Split ''01=100,2'' (CHR '','')) = ''01=100''
   \<and> hd (Split ''1=100,2=0'' (CHR '','')) = ''1=100''
   \<and> ''1=100'' \<noteq> ''01=100''"
  by code_simp

section \<open>The backfill: the claims\<close>

text \<open>
  The claims speak of the pairs of an entry id and a raw entry that the retrieval service
  returns: the raw entry is a text, so the type assertion of the loop holds on it. A body
  that is not a text makes the assertion panic; that is the step \<open>Panic\<close> of the model,
  and no claim is about it.
\<close>

subsection \<open>C2: a failed retrieval ends the run\<close>

text \<open>
  Claim C2. If the retrieval fails for an index \<open>i\<close> during a run over the indices from
  \<open>startIndex\<close> to \<open>endIndex\<close> (the run over the indices before \<open>i\<close> has come to its end),
  the whole run ends with the fatal error. Its events are those of the indices before
  \<open>i\<close>, each with its outcome, then the call for \<open>i\<close> and the fatal message: there is no
  outcome for \<open>i\<close>, and no call for an index after \<open>i\<close>. The retrieval is the only step of
  the loop that is fatal: an iteration ends in \<^verbatim>\<open>log.Fatalf\<close> only when the retrieval failed,
  and when it returned pairs (whatever their decoding, key extraction and writes do) the
  loop goes on to the next index.
\<close>

theorem backfill_retrieval_fatal:
  assumes "startIndex \<le> i" and "i \<le> endIndex" and "endIndex \<le> maxInt"
    and "backfill sv w startIndex (i - 1) = Some (Returned, w1, tr1)"
    and "GetLogEntryByIndex sv w1 i = (Inl err, w2)"
  shows "backfill sv w startIndex endIndex
           = Some (Exited_Fatalf, w2, tr1 @ [Call_GetLogEntryByIndex i, Fatalf_retrieving err])
     \<and> (\<forall>j. startIndex \<le> j \<and> j < i \<longrightarrow> (\<exists>s. outcome s j \<in> set tr1))
     \<and> (\<forall>s. outcome s i \<notin> set (tr1 @ [Call_GetLogEntryByIndex i, Fatalf_retrieving err]))
     \<and> (\<forall>j. i < j \<longrightarrow>
           Call_GetLogEntryByIndex j \<notin> set (tr1 @ [Call_GetLogEntryByIndex i, Fatalf_retrieving err]))
     \<and> (\<forall>w0 j w' evs. process_index sv w0 j = (Fatal, w', evs) \<longrightarrow>
           (\<exists>err'. GetLogEntryByIndex sv w0 j = (Inl err', w')))
     \<and> (\<forall>w0 j pairs w'. GetLogEntryByIndex sv w0 j = (Inr (map string_entry pairs), w') \<longrightarrow>
           fst (process_index sv w0 j) = Next)"
proof -
  let ?T = "tr1 @ [Call_GetLogEntryByIndex i, Fatalf_retrieving err]"
  from assms(4) have pre: "run sv w [] startIndex (i - 1) = Some (Returned, w1, tr1)"
    by (simp add: backfill_def)
  have 1: "backfill sv w startIndex endIndex = Some (Exited_Fatalf, w2, ?T)"
    unfolding backfill_def
    using refl assms(1,2,3) pre assms(5) by (rule run_fatal_at)
  have "i - 1 < maxInt" using assms(2,3) by simp
  from run_events [OF this refl pre] obtain evs
    where "tr1 = [] @ evs"
      and rng: "\<forall>e\<in>set evs. \<forall>j. index_event j e \<longrightarrow> startIndex \<le> j \<and> j \<le> i - 1"
      and out: "\<forall>j. startIndex \<le> j \<and> j \<le> i - 1 \<longrightarrow> (\<exists>s. outcome s j \<in> set evs)"
    by blast
  then have evs: "evs = tr1" by simp
  have 2: "\<forall>j. startIndex \<le> j \<and> j < i \<longrightarrow> (\<exists>s. outcome s j \<in> set tr1)"
    using out unfolding evs by simp
  have 3: "\<forall>s. outcome s i \<notin> set ?T"
  proof
    fix s
    have "outcome s i \<notin> set tr1"
    proof
      assume "outcome s i \<in> set tr1"
      with rng [unfolded evs] have "index_event i (outcome s i) \<longrightarrow> i \<le> i - 1" by blast
      then show False by (simp add: outcome_index_event)
    qed
    then show "outcome s i \<notin> set ?T" by (simp add: outcome_def)
  qed
  have 4: "\<forall>j. i < j \<longrightarrow> Call_GetLogEntryByIndex j \<notin> set ?T"
  proof (intro allI impI)
    fix j assume j: "i < j"
    have "Call_GetLogEntryByIndex j \<notin> set tr1"
    proof
      assume "Call_GetLogEntryByIndex j \<in> set tr1"
      with rng [unfolded evs] have "index_event j (Call_GetLogEntryByIndex j) \<longrightarrow> j \<le> i - 1"
        by blast
      with j show False by simp
    qed
    with j show "Call_GetLogEntryByIndex j \<notin> set ?T" by simp
  qed
  have 5: "\<forall>w0 j w' evs. process_index sv w0 j = (Fatal, w', evs) \<longrightarrow>
           (\<exists>err'. GetLogEntryByIndex sv w0 j = (Inl err', w'))"
    by (auto simp add: process_index_Fatal_iff)
  have 6: "\<forall>w0 j pairs w'. GetLogEntryByIndex sv w0 j = (Inr (map string_entry pairs), w') \<longrightarrow>
           fst (process_index sv w0 j) = Next"
  proof (intro allI impI)
    fix w0 j pairs w'
    assume "GetLogEntryByIndex sv w0 j = (Inr (map string_entry pairs), w')"
    from process_index_strings [OF this] show "fst (process_index sv w0 j) = Next" by auto
  qed
  from 1 2 3 4 5 6 show ?thesis by blast
qed

theorem backfill_retrieval_fatal_witness:
  "backfill example_services [] 0 (3 - 1) = Some (Returned, [(''k1'', ''u2''), (''k1'', ''u0'')],
     [Call_GetLogEntryByIndex 0, Call_LPUSH ''k1'' ''u0'', Printf_Uploaded ''u0'' 0 ''k1'',
      Call_LPUSH ''k2'' ''u0'', Printf_error_inserting ''u0'' ''k2'' ''connection refused'',
      Printf_Uploaded ''u0'' 0 ''k2'', Printf_Errors 0,
      Call_GetLogEntryByIndex 1, Printf_error_unmarshalling ''u1'' ''illegal base64 data'',
      Call_LPUSH ''k1'' ''u2'', Printf_Uploaded ''u2'' 1 ''k1'',
      Call_LPUSH ''k2'' ''u2'', Printf_error_inserting ''u2'' ''k2'' ''connection refused'',
      Printf_Uploaded ''u2'' 1 ''k2'', Printf_Errors 1,
      Call_GetLogEntryByIndex 2, Printf_Completed 2])
   \<and> GetLogEntryByIndex example_services [(''k1'', ''u2''), (''k1'', ''u0'')] 3
        = (Inl ''not found'', [(''k1'', ''u2''), (''k1'', ''u0'')])
   \<and> backfill example_services [] 0 5 = Some (Exited_Fatalf, [(''k1'', ''u2''), (''k1'', ''u0'')],
     [Call_GetLogEntryByIndex 0, Call_LPUSH ''k1'' ''u0'', Printf_Uploaded ''u0'' 0 ''k1'',
      Call_LPUSH ''k2'' ''u0'', Printf_error_inserting ''u0'' ''k2'' ''connection refused'',
      Printf_Uploaded ''u0'' 0 ''k2'', Printf_Errors 0,
      Call_GetLogEntryByIndex 1, Printf_error_unmarshalling ''u1'' ''illegal base64 data'',
      Call_LPUSH ''k1'' ''u2'', Printf_Uploaded ''u2'' 1 ''k1'',
      Call_LPUSH ''k2'' ''u2'', Printf_error_inserting ''u2'' ''k2'' ''connection refused'',
      Printf_Uploaded ''u2'' 1 ''k2'', Printf_Errors 1,
      Call_GetLogEntryByIndex 2, Printf_Completed 2,
      Call_GetLogEntryByIndex 3, Fatalf_retrieving ''not found''])"
proof -
  let ?w = "[(''k1'', ''u2''), (''k1'', ''u0'')]"
  let ?tr = "[Call_GetLogEntryByIndex 0, Call_LPUSH ''k1'' ''u0'', Printf_Uploaded ''u0'' 0 ''k1'',
      Call_LPUSH ''k2'' ''u0'', Printf_error_inserting ''u0'' ''k2'' ''connection refused'',
      Printf_Uploaded ''u0'' 0 ''k2'', Printf_Errors 0,
      Call_GetLogEntryByIndex 1, Printf_error_unmarshalling ''u1'' ''illegal base64 data'',
      Call_LPUSH ''k1'' ''u2'', Printf_Uploaded ''u2'' 1 ''k1'',
      Call_LPUSH ''k2'' ''u2'', Printf_error_inserting ''u2'' ''k2'' ''connection refused'',
      Printf_Uploaded ''u2'' 1 ''k2'', Printf_Errors 1,
      Call_GetLogEntryByIndex 2, Printf_Completed 2]"
  have pre: "backfill example_services [] 0 (3 - 1) = Some (Returned, ?w, ?tr)" by code_simp
  have get: "GetLogEntryByIndex example_services ?w 3 = (Inl ''not found'', ?w)"
    by (simp add: example_services_def)
  have "backfill example_services [] 0 5
          = Some (Exited_Fatalf, ?w, ?tr @ [Call_GetLogEntryByIndex 3, Fatalf_retrieving ''not found''])"
    using backfill_retrieval_fatal [of 0 3 5 example_services "[]" ?w ?tr "''not found''" ?w,
        OF _ _ example_maxInt pre get]
    by simp
  with pre get show ?thesis by simp
qed


subsection \<open>C3: the outcome of an index\<close>

text \<open>
  Claim C3. For every index \<open>i\<close> whose retrieval succeeds, the outcome that is printed is
  the success line if and only if no failure of decoding, key extraction or writing was
  recorded while the pairs of \<open>i\<close> were processed; with no pairs at all it is the success
  line; and whatever the outcome, the run goes on with the next index, which is \<open>i + 1\<close>
  below the largest \<^verbatim>\<open>int\<close>.
\<close>

theorem index_outcome:
  assumes "GetLogEntryByIndex sv w i = (Inr (map string_entry pairs), w1)"
  shows "\<exists>w2 evs.
       process_pairs sv i w1 True (map string_entry pairs)
         = (Some (\<not> (\<exists>e\<in>set evs. failure_record e)), w2, evs)
     \<and> process_index sv w i
         = (Next, w2, Call_GetLogEntryByIndex i # evs
              @ [if \<exists>e\<in>set evs. failure_record e then Printf_Errors i else Printf_Completed i])
     \<and> (pairs = [] \<longrightarrow> evs = [])
     \<and> (i \<le> endIndex \<longrightarrow>
          run sv w tr i endIndex
            = run sv w2
                (tr @ Call_GetLogEntryByIndex i # evs
                   @ [if \<exists>e\<in>set evs. failure_record e then Printf_Errors i else Printf_Completed i])
                (incr i) endIndex)
     \<and> (i < maxInt \<longrightarrow> incr i = i + 1)"
proof -
  from process_index_strings [OF assms] obtain w2 evs
    where p: "process_pairs sv i w1 True (map string_entry pairs)
                = (Some (\<not> (\<exists>e\<in>set evs. failure_record e)), w2, evs)"
      and q: "process_index sv w i
                = (Next, w2, Call_GetLogEntryByIndex i # evs
                     @ [outcome (\<not> (\<exists>e\<in>set evs. failure_record e)) i])"
    by blast
  let ?o = "if \<exists>e\<in>set evs. failure_record e then Printf_Errors i else Printf_Completed i"
  have o: "outcome (\<not> (\<exists>e\<in>set evs. failure_record e)) i = ?o" by (simp add: outcome_def)
  have q': "process_index sv w i = (Next, w2, Call_GetLogEntryByIndex i # evs @ [?o])"
    using q unfolding o .
  have e: "pairs = [] \<longrightarrow> evs = []" using p by auto
  have r: "i \<le> endIndex \<longrightarrow>
      run sv w tr i endIndex = run sv w2 (tr @ Call_GetLogEntryByIndex i # evs @ [?o]) (incr i) endIndex"
    using run_Next [OF _ q'] by blast
  have "i < maxInt \<longrightarrow> incr i = i + 1" by (simp add: incr_below)
  with p q' e r show ?thesis by blast
qed

theorem index_outcome_witness:
  "GetLogEntryByIndex example_services [] 2 = (Inr (map string_entry []), [])
   \<and> process_index example_services [] 2
       = (Next, [], [Call_GetLogEntryByIndex 2, Printf_Completed 2])
   \<and> run example_services [] [] 2 2
       = run example_services [] [Call_GetLogEntryByIndex 2, Printf_Completed 2] 3 2"
proof -
  have get: "GetLogEntryByIndex example_services [] 2 = (Inr (map string_entry []), [])"
    by (simp add: example_services_def)
  have inc: "incr 2 = 3" by (simp add: incr_def maxInt_def)
  from index_outcome [OF get, of 2 "[]"] obtain w2 evs
    where p: "process_pairs example_services 2 [] True (map string_entry [])
                = (Some (\<not> (\<exists>e\<in>set evs. failure_record e)), w2, evs)"
      and q: "process_index example_services [] 2
         = (Next, w2, Call_GetLogEntryByIndex 2 # evs
              @ [if \<exists>e\<in>set evs. failure_record e then Printf_Errors 2 else Printf_Completed 2])"
      and e: "evs = []"
      and r: "run example_services [] [] 2 2
            = run example_services w2
                ([] @ Call_GetLogEntryByIndex 2 # evs
                   @ [if \<exists>e\<in>set evs. failure_record e then Printf_Errors 2 else Printf_Completed 2])
                (incr 2) 2"
    by auto
  from p have w2: "w2 = []" by simp
  from q r show ?thesis unfolding e w2 inc using get by simp
qed


subsection \<open>C4: a decoding failure is recorded and tolerated\<close>

text \<open>
  Claim C4. If the decoding of a retrieved pair \<open>(e1, payload)\<close> at index \<open>i\<close> fails, the
  loop records the error under \<open>e1\<close>, changes nothing in the world for that pair, still
  processes every pair after it, ends the index with the failure line, and goes on to the
  next index. The failures recorded for the index are those of the pairs before, the
  decoding error of \<open>e1\<close>, and those of the pairs after.
\<close>

theorem decode_failure_tolerated:
  assumes "GetLogEntryByIndex sv w i = (Inr (map string_entry (pre @ (e1, payload) # post)), w0)"
    and "unmarshalEntryImpl sv payload = Inl err"
  shows "\<exists>s1 w1 evs1 s2 w2 evs2.
       process_pairs sv i w0 True (map string_entry pre) = (Some s1, w1, evs1)
     \<and> process_pairs sv i w1 False (map string_entry post) = (Some s2, w2, evs2)
     \<and> process_index sv w i
         = (Next, w2, Call_GetLogEntryByIndex i # evs1
              @ Printf_error_unmarshalling e1 err # evs2 @ [Printf_Errors i])
     \<and> filter failure_record (evs1 @ Printf_error_unmarshalling e1 err # evs2)
         = filter failure_record evs1 @ Printf_error_unmarshalling e1 err
             # filter failure_record evs2
     \<and> (i \<le> endIndex \<longrightarrow>
          run sv w tr i endIndex
            = run sv w2
                (tr @ Call_GetLogEntryByIndex i # evs1
                   @ Printf_error_unmarshalling e1 err # evs2 @ [Printf_Errors i])
                (incr i) endIndex)"
proof -
  from process_pairs_strings [of sv i w0 True pre] obtain s1 w1 evs1
    where p1: "process_pairs sv i w0 True (map string_entry pre) = (Some s1, w1, evs1)" by blast
  from process_pairs_strings [of sv i w1 False post] obtain s2 w2 evs2
    where p2: "process_pairs sv i w1 False (map string_entry post) = (Some s2, w2, evs2)"
      and s2: "s2 = (False \<and> \<not> (\<exists>e\<in>set evs2. failure_record e))" by blast
  have m: "map string_entry (pre @ (e1, payload) # post)
             = map string_entry pre @ (e1, StringBody payload) # map string_entry post"
    by (simp add: string_entry_def)
  have "process_pairs sv i w1 s1 ((e1, StringBody payload) # map string_entry post)
          = (Some False, w2, Printf_error_unmarshalling e1 err # evs2)"
    unfolding process_pairs_decode_error [OF assms(2)] using p2 s2 by simp
  then have all: "process_pairs sv i w0 True (map string_entry (pre @ (e1, payload) # post))
          = (Some False, w2, evs1 @ Printf_error_unmarshalling e1 err # evs2)"
    unfolding m by (simp add: process_pairs_append [OF p1])
  have q: "process_index sv w i
         = (Next, w2, Call_GetLogEntryByIndex i # evs1
              @ Printf_error_unmarshalling e1 err # evs2 @ [Printf_Errors i])"
    using assms(1) all by (simp add: process_index_def)
  have f: "filter failure_record (evs1 @ Printf_error_unmarshalling e1 err # evs2)
         = filter failure_record evs1 @ Printf_error_unmarshalling e1 err
             # filter failure_record evs2" by simp
  have r: "i \<le> endIndex \<longrightarrow>
          run sv w tr i endIndex
            = run sv w2
                (tr @ Call_GetLogEntryByIndex i # evs1
                   @ Printf_error_unmarshalling e1 err # evs2 @ [Printf_Errors i])
                (incr i) endIndex"
    using run_Next [OF _ q] by blast
  from p1 p2 q f r show ?thesis by blast
qed

theorem decode_failure_tolerated_witness:
  "GetLogEntryByIndex example_services [] 1
     = (Inr (map string_entry ([] @ (''u1'', ''junk'') # [(''u2'', ''good'')])), [])
   \<and> unmarshalEntryImpl example_services ''junk'' = Inl ''illegal base64 data''
   \<and> process_index example_services [] 1
     = (Next, [(''k1'', ''u2'')],
        [Call_GetLogEntryByIndex 1, Printf_error_unmarshalling ''u1'' ''illegal base64 data'',
         Call_LPUSH ''k1'' ''u2'', Printf_Uploaded ''u2'' 1 ''k1'',
         Call_LPUSH ''k2'' ''u2'', Printf_error_inserting ''u2'' ''k2'' ''connection refused'',
         Printf_Uploaded ''u2'' 1 ''k2'', Printf_Errors 1])"
proof -
  have get: "GetLogEntryByIndex example_services [] 1
     = (Inr (map string_entry ([] @ (''u1'', ''junk'') # [(''u2'', ''good'')])), [])"
    by (simp add: example_services_def string_entry_def)
  have dec: "unmarshalEntryImpl example_services ''junk'' = Inl ''illegal base64 data''"
    by (simp add: unmarshalEntryImpl_def example_services_def)
  have post: "process_pairs example_services 1 [] False (map string_entry [(''u2'', ''good'')])
     = (Some False, [(''k1'', ''u2'')],
        [Call_LPUSH ''k1'' ''u2'', Printf_Uploaded ''u2'' 1 ''k1'',
         Call_LPUSH ''k2'' ''u2'', Printf_error_inserting ''u2'' ''k2'' ''connection refused'',
         Printf_Uploaded ''u2'' 1 ''k2''])"
    by code_simp
  from decode_failure_tolerated [OF get dec, of 1 "[]"] obtain s1 w1 evs1 s2 w2 evs2
    where p1: "process_pairs example_services 1 [] True (map string_entry []) = (Some s1, w1, evs1)"
      and p2: "process_pairs example_services 1 w1 False (map string_entry [(''u2'', ''good'')])
                 = (Some s2, w2, evs2)"
      and q: "process_index example_services [] 1
         = (Next, w2, Call_GetLogEntryByIndex 1 # evs1
              @ Printf_error_unmarshalling ''u1'' ''illegal base64 data'' # evs2 @ [Printf_Errors 1])"
    by blast
  from p1 have 1: "w1 = []" "evs1 = []" by simp_all
  from p2 [unfolded 1 post] have 2: "w2 = [(''k1'', ''u2'')]"
    "evs2 = [Call_LPUSH ''k1'' ''u2'', Printf_Uploaded ''u2'' 1 ''k1'',
         Call_LPUSH ''k2'' ''u2'', Printf_error_inserting ''u2'' ''k2'' ''connection refused'',
         Printf_Uploaded ''u2'' 1 ''k2'']" by simp_all
  from q get dec show ?thesis unfolding 1 2 by simp
qed


subsection \<open>C7: the report of a write\<close>

text \<open>
  Claim C7 has one write attempted for every key, a failed write recorded and the loop
  going on, and the line \<^verbatim>\<open>Uploaded Redis entry\<close> printed for exactly the writes that
  succeed. The loop over the keys does make one call for every key and goes on after a
  failure, but it prints that line for every key: the \<^verbatim>\<open>if\<close> that reports the error has no
  \<^verbatim>\<open>continue\<close>, unlike the two \<^verbatim>\<open>if\<close>s before it. In the example world the push to \<^verbatim>\<open>k2\<close>
  fails and is reported both as an error and as uploaded.
\<close>

theorem Uploaded_printed_after_failed_write:
  "addToIndex example_services [(''k1'', ''u0'')] ''k2'' ''u0''
     = (Some ''connection refused'', [(''k1'', ''u0'')])
   \<and> process_index example_services [] 0
     = (Next, [(''k1'', ''u0'')],
        [Call_GetLogEntryByIndex 0,
         Call_LPUSH ''k1'' ''u0'', Printf_Uploaded ''u0'' 0 ''k1'',
         Call_LPUSH ''k2'' ''u0'', Printf_error_inserting ''u0'' ''k2'' ''connection refused'',
         Printf_Uploaded ''u0'' 0 ''k2'', Printf_Errors 0])"
  by code_simp

end
